theory Spec2Isabelle
  imports Main "HOL-Library.Word" "HOL-Library.Char_ord" "HOL-Library.List_Lexorder"
    "HOL-Library.Multiset"
begin

unbundle bit_operations_syntax

chapter \<open>The model\<close>

section \<open>Ring buffer (pkg/rb/rb.go)\<close>

text \<open>
  \<^verbatim>\<open>RingBuffer[T]\<close> has a slice \<^verbatim>\<open>buf\<close>, a write position \<^verbatim>\<open>pos\<close> and a
  count of used slots \<^verbatim>\<open>len\<close>. The zero value of \<^verbatim>\<open>T\<close> that \<^verbatim>\<open>make\<close> fills the
  slice with is the parameter \<open>z\<close> of \<open>New\<close>.
\<close>

record 'a RingBuffer =
  rb_buf :: "'a list"
  rb_pos :: nat
  rb_len :: nat

definition New :: "'a \<Rightarrow> int \<Rightarrow> 'a RingBuffer" where
  "New z capacity = \<lparr>rb_buf = replicate (nat (max capacity 1)) z, rb_pos = 0, rb_len = 0\<rparr>"

text \<open>\<open>Add\<close> returns the pair \<open>(dropped, wasFull)\<close> of the source and the updated buffer.\<close>

definition Add :: "'a \<Rightarrow> 'a RingBuffer \<Rightarrow> ('a \<times> bool) \<times> 'a RingBuffer" where
  "Add val rb =
     (let dropped = rb_buf rb ! rb_pos rb;
          wasFull = (rb_len rb = length (rb_buf rb));
          buf' = (rb_buf rb)[rb_pos rb := val];
          pos' = (rb_pos rb + 1) mod length (rb_buf rb)
      in ((dropped, wasFull),
          \<lparr>rb_buf = buf', rb_pos = pos', rb_len = (if \<not> wasFull then rb_len rb + 1 else rb_len rb)\<rparr>))"

text \<open>
  \<open>All\<close> is the sequence the iterator yields when the consumer never stops it. The index
  is computed on \<open>int\<close> as the source writes it: \<^verbatim>\<open>(pos - 1 - i + len(buf)) % len(buf)\<close>.
\<close>

definition All_idx :: "'a RingBuffer \<Rightarrow> nat \<Rightarrow> nat" where
  "All_idx rb i = nat ((int (rb_pos rb) - 1 - int i + int (length (rb_buf rb))) mod int (length (rb_buf rb)))"

definition All :: "'a RingBuffer \<Rightarrow> 'a list" where
  "All rb = map (\<lambda>i. rb_buf rb ! All_idx rb i) [0..<rb_len rb]"

definition adds :: "'a RingBuffer \<Rightarrow> 'a list \<Rightarrow> 'a RingBuffer" where
  "adds rb xs = foldl (\<lambda>b v. snd (Add v b)) rb xs"

text \<open>
  The state of a buffer that has received the values \<open>xs\<close>, in this order, since \<open>New\<close>:
  the \<open>k\<close>-th value sits in slot \<open>k mod C\<close> for as long as it is among the last \<open>C\<close>.
\<close>

definition rb_inv :: "'a RingBuffer \<Rightarrow> 'a list \<Rightarrow> bool" where
  "rb_inv rb xs \<longleftrightarrow>
     0 < length (rb_buf rb) \<and>
     rb_pos rb = length xs mod length (rb_buf rb) \<and>
     rb_len rb = min (length xs) (length (rb_buf rb)) \<and>
     (\<forall>k < length xs. length xs \<le> k + length (rb_buf rb) \<longrightarrow> rb_buf rb ! (k mod length (rb_buf rb)) = xs ! k)"


section \<open>Bytes, big-endian integers and the checksum\<close>

type_synonym byte = "8 word"
type_synonym bytes = "byte list"

text \<open>
  The errors the modelled code returns. \<open>EOF\<close> and \<open>ErrUnexpectedEOF\<close> are the two
  values of package \<^verbatim>\<open>io\<close>; \<open>ErrOpen\<close> is the authentication failure of
  \<^verbatim>\<open>crypto/cipher\<close>; \<open>ErrFileExists\<close> and \<open>ErrFileNotFound\<close> are the two
  \<^verbatim>\<open>fmt.Errorf\<close> values of the in-memory storage.
\<close>

datatype error =
    EOF | ErrUnexpectedEOF
  | ErrBadChecksum | ErrInvalidKeySize | ErrCiphertextShort | ErrOpen
  | ErrClosed | ErrFileExists | ErrFileNotFound
  | ErrDuplicate | ErrRateLimited | ErrJournalIsNil | ErrSinkClosed
  | ErrMarshal

text \<open>
  What a call does: it returns a value, returns an error, or panics (an index or slice
  bound out of range, a nil dereference), which unwinds the goroutine and returns nothing.
\<close>

datatype 'a outcome = Ok 'a | Err error | Panic

text \<open>\<^verbatim>\<open>binary.BigEndian\<close>: the \<^verbatim>\<open>Put\<close> functions as the bytes they store, the readers
  with the bounds check they start with (\<^verbatim>\<open>_ = b[3]\<close>, \<^verbatim>\<open>_ = b[7]\<close>): \<open>None\<close> is the panic.\<close>

definition PutUint32 :: "32 word \<Rightarrow> bytes" where
  "PutUint32 v = [ucast (drop_bit 24 v), ucast (drop_bit 16 v), ucast (drop_bit 8 v), ucast v]"

definition PutUint64 :: "64 word \<Rightarrow> bytes" where
  "PutUint64 v = [ucast (drop_bit 56 v), ucast (drop_bit 48 v), ucast (drop_bit 40 v),
     ucast (drop_bit 32 v), ucast (drop_bit 24 v), ucast (drop_bit 16 v), ucast (drop_bit 8 v),
     ucast v]"

fun Uint32 :: "bytes \<Rightarrow> 32 word option" where
  "Uint32 (b0 # b1 # b2 # b3 # _) =
     Some (ucast b3 OR push_bit 8 (ucast b2) OR push_bit 16 (ucast b1) OR push_bit 24 (ucast b0))"
| "Uint32 _ = None"

fun Uint64 :: "bytes \<Rightarrow> 64 word option" where
  "Uint64 (b0 # b1 # b2 # b3 # b4 # b5 # b6 # b7 # _) =
     Some (ucast b7 OR push_bit 8 (ucast b6) OR push_bit 16 (ucast b5) OR push_bit 24 (ucast b4)
       OR push_bit 32 (ucast b3) OR push_bit 40 (ucast b2) OR push_bit 48 (ucast b1)
       OR push_bit 56 (ucast b0))"
| "Uint64 _ = None"

text \<open>
  \<^verbatim>\<open>crc32.ChecksumIEEE\<close>: the reflected CRC-32 with polynomial \<^verbatim>\<open>0xedb88320\<close>, initial
  value and final complement \<^verbatim>\<open>0xffffffff\<close>, one bit at a time (the library's tables
  compute the same function).
\<close>

definition crc_bit :: "32 word \<Rightarrow> 32 word" where
  "crc_bit c = (if bit c 0 then drop_bit 1 c XOR 0xedb88320 else drop_bit 1 c)"

definition crc_byte :: "32 word \<Rightarrow> byte \<Rightarrow> 32 word" where
  "crc_byte c b = (crc_bit ^^ 8) (c XOR ucast b)"

definition ChecksumIEEE :: "bytes \<Rightarrow> 32 word" where
  "ChecksumIEEE data = NOT (foldl crc_byte (NOT 0) data)"

text \<open>
  \<^verbatim>\<open>io.ReadFull(r, buf)\<close> on a reader over the remaining bytes \<open>r\<close> of a segment, with
  \<open>n = len(buf)\<close>: the bytes read or the error, and the reader afterwards. The error is
  \<open>EOF\<close> only when no byte was read, \<open>ErrUnexpectedEOF\<close> when some but not all were;
  an empty \<open>buf\<close> reads nothing and succeeds.
\<close>

definition ReadFull :: "nat \<Rightarrow> bytes \<Rightarrow> (error + bytes) \<times> bytes" where
  "ReadFull n r =
     (if n = 0 then (Inr [], r)
      else if r = [] then (Inl EOF, [])
      else if length r < n then (Inl ErrUnexpectedEOF, [])
      else (Inr (take n r), drop n r))"


section \<open>Record framing (pkg/journal/journal.go, encrypt.go)\<close>

record Entry =
  Key :: bytes
  Value :: bytes
  Seq :: "64 word"

text \<open>
  The \<^verbatim>\<open>Encryptor\<close> interface of the journal: two methods. \<^verbatim>\<open>Encrypt\<close> draws a random
  nonce in the source; a value of this record is an encryptor together with the nonces it
  will draw.
\<close>

record Encryptor =
  enc_Encrypt :: "bytes \<Rightarrow> error + bytes"
  enc_Decrypt :: "bytes \<Rightarrow> error + bytes"

text \<open>
  \<^verbatim>\<open>cipher.AEAD\<close> as \<^verbatim>\<open>AESGCMEncryptor\<close> uses it, with no additional data: \<open>aead_Seal\<close>
  takes the nonce and the plaintext and gives ciphertext and tag, \<open>aead_Open\<close> takes the
  nonce and ciphertext with tag.
\<close>

record AEAD =
  aead_NonceSize :: nat
  aead_Seal :: "bytes \<Rightarrow> bytes \<Rightarrow> bytes"
  aead_Open :: "bytes \<Rightarrow> bytes \<Rightarrow> error + bytes"

text \<open>\<^verbatim>\<open>AESGCMEncryptor.Encrypt\<close>; \<open>rnd\<close> is what \<^verbatim>\<open>rand.Read\<close> gives for the nonce.\<close>

definition AESGCM_Encrypt :: "AEAD \<Rightarrow> error + bytes \<Rightarrow> bytes \<Rightarrow> error + bytes" where
  "AESGCM_Encrypt aead rnd plaintext =
     (case rnd of Inl e \<Rightarrow> Inl e | Inr nonce \<Rightarrow> Inr (nonce @ aead_Seal aead nonce plaintext))"

definition AESGCM_Decrypt :: "AEAD \<Rightarrow> bytes \<Rightarrow> error + bytes" where
  "AESGCM_Decrypt aead ciphertext =
     (let nonceSize = aead_NonceSize aead in
      if length ciphertext < nonceSize then Inl ErrCiphertextShort
      else aead_Open aead (take nonceSize ciphertext) (drop nonceSize ciphertext))"

text \<open>
  The AEAD that \<^verbatim>\<open>NewAESGCMEncryptor\<close> builds is the standard library's GCM: nonces of 12
  bytes, tags of 16 bytes. Its \<^verbatim>\<open>Open\<close> starts with the length guard
  \<^verbatim>\<open>if len(ciphertext) < g.tagSize { return nil, errOpen }\<close>; the decryption and tag
  check behind the guard are the parameter \<open>body\<close>, and sealing is \<open>seal\<close>.
\<close>

definition gcm_Open :: "(bytes \<Rightarrow> bytes \<Rightarrow> error + bytes) \<Rightarrow> bytes \<Rightarrow> bytes \<Rightarrow> error + bytes" where
  "gcm_Open body nonce ciphertext = (if length ciphertext < 16 then Inl ErrOpen else body nonce ciphertext)"

definition gcm :: "(bytes \<Rightarrow> bytes \<Rightarrow> bytes) \<Rightarrow> (bytes \<Rightarrow> bytes \<Rightarrow> error + bytes) \<Rightarrow> AEAD" where
  "gcm seal body = \<lparr>aead_NonceSize = 12, aead_Seal = seal, aead_Open = gcm_Open body\<rparr>"

text \<open>A GCM body that authenticates nothing and a sealing that adds only a zero tag, for
  concrete runs that never reach them.\<close>

definition reject_body :: "bytes \<Rightarrow> bytes \<Rightarrow> error + bytes" where
  "reject_body nonce ciphertext = Inl ErrOpen"

definition zero_tag_seal :: "bytes \<Rightarrow> bytes \<Rightarrow> bytes" where
  "zero_tag_seal nonce plaintext = plaintext @ replicate 16 0"

text \<open>
  \<^verbatim>\<open>Journal.write\<close> up to its last line: the canonical body, the optional encryption,
  and the frame of length, checksum and payload that is handed to the buffered writer.
  \<^verbatim>\<open>uint32(keyLen)\<close> truncates, which \<open>of_nat\<close> into \<open>32 word\<close> does too.
\<close>

definition body :: "Entry \<Rightarrow> bytes" where
  "body e = PutUint64 (Seq e) @ PutUint32 (of_nat (length (Key e))) @ Key e
            @ PutUint32 (of_nat (length (Value e))) @ Value e"

definition frame :: "bytes \<Rightarrow> bytes" where
  "frame data = PutUint32 (of_nat (length data)) @ PutUint32 (ChecksumIEEE data) @ data"

definition encode :: "Encryptor option \<Rightarrow> Entry \<Rightarrow> error + bytes" where
  "encode enc e =
     (case enc of
        None \<Rightarrow> Inr (frame (body e))
      | Some c \<Rightarrow> (case enc_Encrypt c (body e) of Inl err \<Rightarrow> Inl err | Inr data \<Rightarrow> Inr (frame data)))"

text \<open>An entry whose key has \<open>2 ^ 32\<close> bytes, one more than its length field can say.\<close>

definition oversize_entry :: Entry where
  "oversize_entry = \<lparr>Key = replicate (2 ^ 32) 0, Value = [], Seq = 0\<rparr>"

text \<open>
  The second half of \<^verbatim>\<open>Journal.read\<close>: parsing the payload. Each \<^verbatim>\<open>Uint64\<close> and
  \<^verbatim>\<open>Uint32\<close> panics on a slice that is too short, \<^verbatim>\<open>data[pos:pos+int(keyLen)]\<close> panics
  when the upper bound exceeds the capacity of \<^verbatim>\<open>data\<close> (its length: it comes from
  \<^verbatim>\<open>make\<close>), and the last \<^verbatim>\<open>copy\<close> fills what it has and leaves the rest of \<^verbatim>\<open>val\<close> zero.
\<close>

definition decode :: "bytes \<Rightarrow> Entry outcome" where
  "decode data =
     (case Uint64 data of None \<Rightarrow> Panic | Some seq \<Rightarrow>
      (case Uint32 (drop 8 data) of None \<Rightarrow> Panic | Some keyLen \<Rightarrow>
         if length data < 12 + unat keyLen then Panic
         else
           (let key = take (unat keyLen) (drop 12 data); pos = 12 + unat keyLen in
            (case Uint32 (drop pos data) of None \<Rightarrow> Panic | Some valLen \<Rightarrow>
               (let src = drop (pos + 4) data;
                    val = take (unat valLen) src @ replicate (unat valLen - length src) 0
                in Ok \<lparr>Key = key, Value = val, Seq = seq\<rparr>)))))"

text \<open>\<^verbatim>\<open>Journal.read\<close> on the remaining bytes \<open>r\<close> of a segment: the outcome and the reader
  afterwards.\<close>

definition read :: "Encryptor option \<Rightarrow> bytes \<Rightarrow> Entry outcome \<times> bytes" where
  "read enc r =
     (case ReadFull 4 r of (Inl e, r1) \<Rightarrow> (Err e, r1) | (Inr lenBuf, r1) \<Rightarrow>
      (case Uint32 lenBuf of None \<Rightarrow> (Panic, r1) | Some len \<Rightarrow>
       (case ReadFull 4 r1 of (Inl e, r2) \<Rightarrow> (Err e, r2) | (Inr crcBuf, r2) \<Rightarrow>
        (case Uint32 crcBuf of None \<Rightarrow> (Panic, r2) | Some expectedCRC \<Rightarrow>
         (case ReadFull (unat len) r2 of (Inl e, r3) \<Rightarrow> (Err e, r3) | (Inr data, r3) \<Rightarrow>
            if ChecksumIEEE data \<noteq> expectedCRC then (Err ErrBadChecksum, r3)
            else
              (case enc of
                 None \<Rightarrow> (decode data, r3)
               | Some c \<Rightarrow> (case enc_Decrypt c data of
                             Inl e \<Rightarrow> (Err e, r3)
                           | Inr plain \<Rightarrow> (decode plain, r3))))))))"


section \<open>Segment names\<close>

text \<open>
  \<^verbatim>\<open>fmt.Sprintf("%06d.wal", n)\<close>: the decimal digits of \<open>n\<close>, padded with zeros on the
  left to six characters; for a negative \<open>n\<close> the sign comes first and counts as one of the
  six. A number of more than six digits is written in full.
\<close>

definition digit_char :: "nat \<Rightarrow> char" where
  "digit_char d = char_of (48 + d)"

fun decimal :: "nat \<Rightarrow> string" where
  "decimal n = (if n < 10 then [digit_char n] else decimal (n div 10) @ [digit_char (n mod 10)])"

declare decimal.simps [simp del]

definition pad0 :: "nat \<Rightarrow> string \<Rightarrow> string" where
  "pad0 w s = replicate (w - length s) (CHR ''0'') @ s"

definition segmentName :: "int \<Rightarrow> string" where
  "segmentName n =
     (if n < 0 then CHR ''-'' # pad0 5 (decimal (nat (- n))) else pad0 6 (decimal (nat n))) @ ''.wal''"

text \<open>The \<open>w\<close> lowest decimal digits of \<open>n\<close>, the highest first: what padding to width
  \<open>w\<close> gives for a number of at most \<open>w\<close> digits.\<close>

fun digitsW :: "nat \<Rightarrow> nat \<Rightarrow> string" where
  "digitsW 0 n = []"
| "digitsW (Suc w) n = digitsW w (n div 10) @ [digit_char (n mod 10)]"

text \<open>
  \<^verbatim>\<open>fmt.Sscanf(name, "%d.wal", &n)\<close> with its error reduced to \<open>None\<close>: blanks are
  skipped, an optional sign and at least one decimal digit are read, the value must fit
  64 bits, and the input must go on with \<^verbatim>\<open>.wal\<close>; what follows is not looked at.
\<close>

definition is_digit :: "char \<Rightarrow> bool" where
  "is_digit c \<longleftrightarrow> (48::nat) \<le> of_char c \<and> of_char c \<le> (57::nat)"

definition digits_value :: "string \<Rightarrow> nat" where
  "digits_value ds = foldl (\<lambda>a c. 10 * a + (of_char c - 48)) 0 ds"

definition Sscanf_wal :: "string \<Rightarrow> int option" where
  "Sscanf_wal name =
     (let s = dropWhile (\<lambda>c. c = CHR '' '' \<or> c = CHR 0x09) name;
          neg = (s \<noteq> [] \<and> hd s = CHR ''-'');
          s1 = (if s \<noteq> [] \<and> (hd s = CHR ''-'' \<or> hd s = CHR ''+'') then tl s else s);
          ds = takeWhile is_digit s1;
          rest = dropWhile is_digit s1;
          v = (if neg then - int (digits_value ds) else int (digits_value ds))
      in if ds = [] then None
         else if v < - (2 ^ 63) \<or> 2 ^ 63 \<le> v then None
         else if take 4 rest \<noteq> ''.wal'' then None
         else Some v)"

section \<open>In-memory storage and the buffered writer\<close>

text \<open>
  \<^verbatim>\<open>MemStorage\<close> maps names to files; a file is its bytes and the \<^verbatim>\<open>closed\<close> flag.
  The map is kept as a list of pairs in the order of creation; \<^verbatim>\<open>List\<close> gives the
  names in an order the source leaves open, and both of its callers (a maximum, a sort)
  do not depend on it. A \<^verbatim>\<open>memWriter\<close> points to its file, which is never removed or
  replaced, so here it is the name of the file.
\<close>

record memFile =
  mf_data :: bytes
  mf_closed :: bool

type_synonym MemStorage = "(string \<times> memFile) list"

definition NewMemStorage :: MemStorage where
  "NewMemStorage = []"

fun ms_update :: "MemStorage \<Rightarrow> string \<Rightarrow> memFile \<Rightarrow> MemStorage" where
  "ms_update [] name mf = []"
| "ms_update ((n, f) # ms) name mf = (if n = name then (n, mf) # ms else (n, f) # ms_update ms name mf)"

definition ms_Create :: "MemStorage \<Rightarrow> string \<Rightarrow> (error + string) \<times> MemStorage" where
  "ms_Create ms name =
     (case map_of ms name of
        Some mf \<Rightarrow> (Inl ErrFileExists, ms)
      | None \<Rightarrow> (Inr name, ms @ [(name, \<lparr>mf_data = [], mf_closed = False\<rparr>)]))"

definition ms_Open :: "MemStorage \<Rightarrow> string \<Rightarrow> error + bytes" where
  "ms_Open ms name = (case map_of ms name of None \<Rightarrow> Inl ErrFileNotFound | Some mf \<Rightarrow> Inr (mf_data mf))"

definition ms_OpenAppend :: "MemStorage \<Rightarrow> string \<Rightarrow> error + (string \<times> int)" where
  "ms_OpenAppend ms name =
     (case map_of ms name of
        None \<Rightarrow> Inl ErrFileNotFound
      | Some mf \<Rightarrow> Inr (name, int (length (mf_data mf))))"

definition ms_List :: "MemStorage \<Rightarrow> string list" where
  "ms_List ms = map fst ms"

text \<open>\<^verbatim>\<open>memWriter.Write\<close> and \<^verbatim>\<open>memWriter.Close\<close>. The flag they test and set is the
  file's, not the writer's.\<close>

definition mw_Write :: "MemStorage \<Rightarrow> string \<Rightarrow> bytes \<Rightarrow> (error + nat) \<times> MemStorage" where
  "mw_Write ms mw p =
     (case map_of ms mw of
        None \<Rightarrow> (Inl ErrClosed, ms)
      | Some mf \<Rightarrow>
          if mf_closed mf then (Inl ErrClosed, ms)
          else (Inr (length p), ms_update ms mw (mf\<lparr>mf_data := mf_data mf @ p\<rparr>)))"

definition mw_Close :: "MemStorage \<Rightarrow> string \<Rightarrow> MemStorage" where
  "mw_Close ms mw =
     (case map_of ms mw of None \<Rightarrow> ms | Some mf \<Rightarrow> ms_update ms mw (mf\<lparr>mf_closed := True\<rparr>))"

text \<open>
  \<^verbatim>\<open>bufio.Writer\<close> of the default size 4096 over a \<^verbatim>\<open>memWriter\<close>: the bytes it holds,
  its sticky error and the writer underneath. \<open>bw_Flush\<close> and \<open>bw_Write\<close> follow
  \<^verbatim>\<open>Flush\<close> and \<^verbatim>\<open>Write\<close> of the library; the writer underneath takes all of a slice
  or nothing.
\<close>

record Writer =
  bw_buf :: bytes
  bw_err :: "error option"
  bw_wr :: string

definition NewWriter :: "string \<Rightarrow> Writer" where
  "NewWriter wc = \<lparr>bw_buf = [], bw_err = None, bw_wr = wc\<rparr>"

definition bw_Available :: "Writer \<Rightarrow> nat" where
  "bw_Available b = 4096 - length (bw_buf b)"

definition bw_Flush :: "MemStorage \<Rightarrow> Writer \<Rightarrow> error option \<times> MemStorage \<times> Writer" where
  "bw_Flush ms b =
     (if bw_err b \<noteq> None then (bw_err b, ms, b)
      else if bw_buf b = [] then (None, ms, b)
      else (case mw_Write ms (bw_wr b) (bw_buf b) of
              (Inl e, ms') \<Rightarrow> (Some e, ms', b\<lparr>bw_err := Some e\<rparr>)
            | (Inr n, ms') \<Rightarrow> (None, ms', b\<lparr>bw_buf := drop n (bw_buf b)\<rparr>)))"

text \<open>
  \<^verbatim>\<open>Writer.Write\<close>. Its loop runs while the slice does not fit and no error is set: on
  an empty buffer it writes the slice through, otherwise it fills the buffer and
  flushes. The loop is unrolled: after a fill and a successful flush the buffer is
  empty, so the next round writes through or the loop ends. The result is the count
  \<^verbatim>\<open>nn\<close> and the error.
\<close>

definition bw_Write_empty :: "MemStorage \<Rightarrow> Writer \<Rightarrow> bytes \<Rightarrow> nat \<Rightarrow> (nat \<times> error option) \<times> MemStorage \<times> Writer" where
  "bw_Write_empty ms b p nn =
     (if length p > bw_Available b then
        (case mw_Write ms (bw_wr b) p of
           (Inl e, ms') \<Rightarrow> ((nn, Some e), ms', b\<lparr>bw_err := Some e\<rparr>)
         | (Inr n, ms') \<Rightarrow> ((nn + n + length (drop n p), None), ms', b\<lparr>bw_buf := bw_buf b @ drop n p\<rparr>))
      else ((nn + length p, None), ms, b\<lparr>bw_buf := bw_buf b @ p\<rparr>))"

definition bw_Write :: "MemStorage \<Rightarrow> Writer \<Rightarrow> bytes \<Rightarrow> (nat \<times> error option) \<times> MemStorage \<times> Writer" where
  "bw_Write ms b p =
     (if length p > bw_Available b \<and> bw_err b = None then
        (if bw_buf b = [] then bw_Write_empty ms b p 0
         else
           (let n = min (bw_Available b) (length p);
                b1 = b\<lparr>bw_buf := bw_buf b @ take n p\<rparr>
            in case bw_Flush ms b1 of
                 (Some e, ms', b2) \<Rightarrow> ((n, Some e), ms', b2)
               | (None, ms', b2) \<Rightarrow> bw_Write_empty ms' b2 (drop n p) n))
      else if bw_err b \<noteq> None then ((0, bw_err b), ms, b)
      else ((length p, None), ms, b\<lparr>bw_buf := bw_buf b @ p\<rparr>))"


section \<open>The journal (pkg/journal/journal.go)\<close>

text \<open>
  The fields of \<^verbatim>\<open>Journal\<close> but the lock and the storage, which is shared between
  journals and passed beside them. \<open>j_writer\<close> and \<open>j_closer\<close> are \<open>None\<close> for the nil
  pointers of the zero value.
\<close>

record Journal =
  j_current :: string
  j_writer :: "Writer option"
  j_closer :: "string option"
  j_seq :: "64 word"
  j_size :: int
  j_maxSize :: int
  j_segment :: int
  j_encryptor :: "Encryptor option"

text \<open>\<^verbatim>\<open>Journal.scan\<close> after a successful \<^verbatim>\<open>Open\<close>: the loop over the records of a
  segment, from the sequence number held so far to the one held at the end. When the
  loop fails, \<^verbatim>\<open>New\<close> drops the journal, so the number it holds then is not kept.
  \<^verbatim>\<open>Sync\<close> of the in-memory storage does nothing and returns nil; it is left out
  where the source calls it.\<close>

function scan_loop :: "Encryptor option \<Rightarrow> bytes \<Rightarrow> 64 word \<Rightarrow> 64 word outcome" where
  "scan_loop enc r seq =
     (case read enc r of
        (Err e, r') \<Rightarrow> if e = EOF then Ok seq else Err e
      | (Panic, r') \<Rightarrow> Panic
      | (Ok e, r') \<Rightarrow> scan_loop enc r' (if Seq e > seq then Seq e else seq))"
  by pat_completeness auto
termination
proof (relation "measure (\<lambda>(enc, r, seq). length r)")
  show "wf (measure (\<lambda>(enc, r, seq). length r))" by simp
next
  fix enc :: "Encryptor option" and r r' :: bytes and seq :: "64 word" and x e
  assume "(x, r') = read enc r" and "x = Ok e"
  then have "read enc r = (Ok e, r')" by simp
  then have "length r' < length r"
    by (auto simp: read_def ReadFull_def split: prod.splits sum.splits option.splits if_splits)
  then show "((enc, r', if seq < Seq e then Seq e else seq), enc, r, seq)
             \<in> measure (\<lambda>(enc, r, seq). length r)"
    by simp
qed

declare scan_loop.simps [simp del]

definition scan :: "MemStorage \<Rightarrow> Journal \<Rightarrow> string \<Rightarrow> unit outcome \<times> Journal" where
  "scan ms w name =
     (case ms_Open ms name of
        Inl err \<Rightarrow> (Err err, w)
      | Inr rc \<Rightarrow>
          (case scan_loop (j_encryptor w) rc (j_seq w) of
             Ok seq \<Rightarrow> (Ok (), w\<lparr>j_seq := seq\<rparr>)
           | Err err \<Rightarrow> (Err err, w)
           | Panic \<Rightarrow> (Panic, w)))"

definition newSegment :: "MemStorage \<Rightarrow> Journal \<Rightarrow> unit outcome \<times> MemStorage \<times> Journal" where
  "newSegment ms w =
     (let closed =
        (case j_closer w of
           None \<Rightarrow> (Ok (), ms, w)
         | Some c \<Rightarrow>
             (case j_writer w of
                None \<Rightarrow> (Panic, ms, w)
              | Some b \<Rightarrow>
                  (case bw_Flush ms b of
                     (Some err, ms1, b1) \<Rightarrow> (Err err, ms1, w\<lparr>j_writer := Some b1\<rparr>)
                   | (None, ms1, b1) \<Rightarrow> (Ok (), mw_Close ms1 c, w\<lparr>j_writer := Some b1\<rparr>))))
      in case closed of
           (Ok u, ms2, w2) \<Rightarrow>
             (let w3 = w2\<lparr>j_segment := j_segment w2 + 1\<rparr>;
                  name = segmentName (j_segment w3)
              in case ms_Create ms2 name of
                   (Inl err, ms3) \<Rightarrow> (Err err, ms3, w3)
                 | (Inr wc, ms3) \<Rightarrow>
                     (Ok (), ms3, w3\<lparr>j_current := name, j_writer := Some (NewWriter wc),
                                     j_closer := Some wc, j_size := 0\<rparr>))
         | other \<Rightarrow> other)"

definition openLatest :: "MemStorage \<Rightarrow> Journal \<Rightarrow> unit outcome \<times> MemStorage \<times> Journal" where
  "openLatest ms w =
     (let names = ms_List ms in
      if names = [] then newSegment ms w
      else
        (let latest = foldl (\<lambda>l name. case Sscanf_wal name of
                                          Some n \<Rightarrow> if n > l then n else l
                                        | None \<Rightarrow> l) 0 names;
             w1 = w\<lparr>j_segment := latest\<rparr>;
             name = segmentName latest
         in case scan ms w1 name of
              (Ok u, w2) \<Rightarrow>
                (case ms_OpenAppend ms name of
                   Inl err \<Rightarrow> (Err err, ms, w2)
                 | Inr (wc, sz) \<Rightarrow>
                     (Ok (), ms, w2\<lparr>j_current := name, j_writer := Some (NewWriter wc),
                                    j_closer := Some wc, j_size := sz\<rparr>))
            | (Err err, w2) \<Rightarrow> (Err err, ms, w2)
            | (Panic, w2) \<Rightarrow> (Panic, ms, w2)))"

text \<open>\<^verbatim>\<open>New\<close> of the journal; it returns the journal only when \<^verbatim>\<open>openLatest\<close> succeeds.\<close>

definition New_Journal :: "MemStorage \<Rightarrow> int \<Rightarrow> Encryptor option \<Rightarrow> Journal outcome \<times> MemStorage" where
  "New_Journal storage maxSize enc =
     (let maxSize' = (if maxSize = 0 then 64 * 1024 * 1024 else maxSize);
          w = \<lparr>j_current = [], j_writer = None, j_closer = None, j_seq = 0, j_size = 0,
               j_maxSize = maxSize', j_segment = 0, j_encryptor = enc\<rparr>
      in case openLatest storage w of
           (Ok u, ms, w') \<Rightarrow> (Ok w', ms)
         | (Err err, ms, w') \<Rightarrow> (Err err, ms)
         | (Panic, ms, w') \<Rightarrow> (Panic, ms))"

text \<open>\<^verbatim>\<open>Journal.write\<close> (here \<open>journal_write\<close>): the frame goes to the buffered writer, whose count and error come
  back.\<close>

definition journal_write :: "Journal \<Rightarrow> MemStorage \<Rightarrow> Writer \<Rightarrow> Entry \<Rightarrow> (nat \<times> error option) \<times> MemStorage \<times> Writer" where
  "journal_write j ms b e =
     (case encode (j_encryptor j) e of
        Inl err \<Rightarrow> ((0, Some err), ms, b)
      | Inr buf \<Rightarrow> bw_Write ms b buf)"

text \<open>The part \<^verbatim>\<open>Write\<close> and the body of the loop of \<^verbatim>\<open>WriteBatch\<close> share, after the
  sequence number is taken: the rotation and the write of the entry. On a nil writer
  the entry is still encoded first, and the call of the writer panics.\<close>

definition put :: "MemStorage \<Rightarrow> Journal \<Rightarrow> Entry \<Rightarrow> unit outcome \<times> MemStorage \<times> Journal" where
  "put ms w e =
     (let rotated = (if j_size w \<ge> j_maxSize w then newSegment ms w else (Ok (), ms, w)) in
      case rotated of
        (Ok u, ms1, w1) \<Rightarrow>
          (case j_writer w1 of
             None \<Rightarrow>
               (case encode (j_encryptor w1) e of
                  Inl err \<Rightarrow> (Err err, ms1, w1)
                | Inr buf \<Rightarrow> (Panic, ms1, w1))
           | Some b \<Rightarrow>
               (case journal_write w1 ms1 b e of
                  ((n, Some err), ms2, b2) \<Rightarrow> (Err err, ms2, w1\<lparr>j_writer := Some b2\<rparr>)
                | ((n, None), ms2, b2) \<Rightarrow>
                    (Ok (), ms2, w1\<lparr>j_writer := Some b2, j_size := j_size w1 + int n\<rparr>)))
      | other \<Rightarrow> other)"

definition Write :: "MemStorage \<Rightarrow> Journal \<Rightarrow> bytes \<Rightarrow> bytes \<Rightarrow> 64 word outcome \<times> MemStorage \<times> Journal" where
  "Write ms w key val =
     (let w0 = w\<lparr>j_seq := j_seq w + 1\<rparr>;
          e = \<lparr>Key = key, Value = val, Seq = j_seq w0\<rparr>
      in case put ms w0 e of
           (Ok u, ms', w') \<Rightarrow> (Ok (Seq e), ms', w')
         | (Err err, ms', w') \<Rightarrow> (Err err, ms', w')
         | (Panic, ms', w') \<Rightarrow> (Panic, ms', w'))"

text \<open>
  \<^verbatim>\<open>WriteBatch\<close>: the result, the caller's slice as the call leaves it, the storage and
  the journal. The loop goes down the slice; an entry gets its sequence number before
  the rotation and the write, so it keeps it when they fail.
\<close>

fun WriteBatch_loop :: "MemStorage \<Rightarrow> Journal \<Rightarrow> Entry list \<Rightarrow> 64 word list outcome \<times> Entry list \<times> MemStorage \<times> Journal" where
  "WriteBatch_loop ms w [] = (Ok [], [], ms, w)"
| "WriteBatch_loop ms w (e # es) =
     (let w0 = w\<lparr>j_seq := j_seq w + 1\<rparr>;
          e' = e\<lparr>Seq := j_seq w0\<rparr>
      in case put ms w0 e' of
           (Ok u, ms1, w1) \<Rightarrow>
             (case WriteBatch_loop ms1 w1 es of
                (Ok seqs, es', ms2, w2) \<Rightarrow> (Ok (j_seq w0 # seqs), e' # es', ms2, w2)
              | (Err err, es', ms2, w2) \<Rightarrow> (Err err, e' # es', ms2, w2)
              | (Panic, es', ms2, w2) \<Rightarrow> (Panic, e' # es', ms2, w2))
         | (Err err, ms1, w1) \<Rightarrow> (Err err, e' # es, ms1, w1)
         | (Panic, ms1, w1) \<Rightarrow> (Panic, e' # es, ms1, w1))"

definition WriteBatch :: "MemStorage \<Rightarrow> Journal \<Rightarrow> Entry list \<Rightarrow> 64 word list outcome \<times> Entry list \<times> MemStorage \<times> Journal" where
  "WriteBatch ms w entries = WriteBatch_loop ms w entries"

definition Sync :: "MemStorage \<Rightarrow> Journal \<Rightarrow> unit outcome \<times> MemStorage \<times> Journal" where
  "Sync ms w =
     (case j_writer w of
        None \<Rightarrow> (Panic, ms, w)
      | Some b \<Rightarrow>
          (case bw_Flush ms b of
             (Some err, ms1, b1) \<Rightarrow> (Err err, ms1, w\<lparr>j_writer := Some b1\<rparr>)
           | (None, ms1, b1) \<Rightarrow> (Ok (), ms1, w\<lparr>j_writer := Some b1\<rparr>)))"

text \<open>\<^verbatim>\<open>Close\<close>: the first error of the flush and the close (the close of a
  \<^verbatim>\<open>memWriter\<close> has none), or \<open>None\<close>.\<close>

definition Close :: "MemStorage \<Rightarrow> Journal \<Rightarrow> error option \<times> MemStorage \<times> Journal" where
  "Close ms w =
     (let (firstErr, ms1, w1) =
        (case j_writer w of
           None \<Rightarrow> (None, ms, w)
         | Some b \<Rightarrow> (case bw_Flush ms b of (r, ms', b') \<Rightarrow> (r, ms', w\<lparr>j_writer := Some b'\<rparr>)))
      in case j_closer w1 of
           None \<Rightarrow> (firstErr, ms1, w1)
         | Some c \<Rightarrow> (firstErr, mw_Close ms1 c, w1))"

text \<open>
  \<^verbatim>\<open>Replay\<close>. The callback \<open>fn\<close> works on a state of its own and returns its error or
  \<open>None\<close>. \<open>replay_segment\<close> is the inner loop over one opened segment, \<open>replay_names\<close>
  the outer loop, which goes on to the next name when \<^verbatim>\<open>Open\<close> fails.
\<close>

function replay_segment :: "Encryptor option \<Rightarrow> ('s \<Rightarrow> Entry \<Rightarrow> error option \<times> 's) \<Rightarrow> bytes \<Rightarrow> 's \<Rightarrow> unit outcome \<times> 's" where
  "replay_segment enc fn r s =
     (case read enc r of
        (Err e, r') \<Rightarrow> if e = EOF then (Ok (), s) else (Err e, s)
      | (Panic, r') \<Rightarrow> (Panic, s)
      | (Ok e, r') \<Rightarrow>
          (case fn s e of
             (Some err, s') \<Rightarrow> (Err err, s')
           | (None, s') \<Rightarrow> replay_segment enc fn r' s'))"
  by pat_completeness auto
termination
proof (relation "measure (\<lambda>(enc, fn, r, s). length r)")
  show "wf (measure (\<lambda>(enc, fn, r, s). length r))" by simp
next
  fix enc :: "Encryptor option" and fn :: "'s \<Rightarrow> Entry \<Rightarrow> error option \<times> 's"
    and r r' :: bytes and s s' :: 's and x e y z
  assume "(x, r') = read enc r" and "x = Ok e"
  then have "read enc r = (Ok e, r')" by simp
  then have "length r' < length r"
    by (auto simp: read_def ReadFull_def split: prod.splits sum.splits option.splits if_splits)
  then show "((enc, fn, r', s'), enc, fn, r, s) \<in> measure (\<lambda>(enc, fn, r, s). length r)"
    by simp
qed

declare replay_segment.simps [simp del]

fun replay_names :: "Encryptor option \<Rightarrow> ('s \<Rightarrow> Entry \<Rightarrow> error option \<times> 's) \<Rightarrow> MemStorage \<Rightarrow> string list \<Rightarrow> 's \<Rightarrow> unit outcome \<times> 's" where
  "replay_names enc fn ms [] s = (Ok (), s)"
| "replay_names enc fn ms (name # names) s =
     (case ms_Open ms name of
        Inl err \<Rightarrow> replay_names enc fn ms names s
      | Inr rc \<Rightarrow>
          (case replay_segment enc fn rc s of
             (Ok u, s') \<Rightarrow> replay_names enc fn ms names s'
           | other \<Rightarrow> other))"

definition Replay :: "MemStorage \<Rightarrow> Journal \<Rightarrow> ('s \<Rightarrow> Entry \<Rightarrow> error option \<times> 's) \<Rightarrow> 's \<Rightarrow> unit outcome \<times> 's" where
  "Replay ms w fn s = replay_names (j_encryptor w) fn ms (sort (ms_List ms)) s"

text \<open>A callback for \<^verbatim>\<open>Replay\<close> that keeps the entries it is given, and a small entry.\<close>

definition keep :: "Entry list \<Rightarrow> Entry \<Rightarrow> error option \<times> Entry list" where
  "keep s e = (None, s @ [e])"

definition entry1 :: Entry where
  "entry1 = \<lparr>Key = [], Value = [], Seq = 1\<rparr>"

text \<open>The storage and the journal that \<^verbatim>\<open>New\<close> gives on an empty storage, with the default
  segment size and no encryptor, and two entries for a batch.\<close>

definition storage0 :: MemStorage where
  "storage0 = [(''000001.wal'', \<lparr>mf_data = [], mf_closed = False\<rparr>)]"

definition journal0 :: Journal where
  "journal0 = \<lparr>j_current = ''000001.wal'', j_writer = Some (NewWriter ''000001.wal''),
     j_closer = Some ''000001.wal'', j_seq = 0, j_size = 0, j_maxSize = 67108864,
     j_segment = 1, j_encryptor = None\<rparr>"

definition entryA :: Entry where
  "entryA = \<lparr>Key = [97], Value = [98, 111, 98], Seq = 0\<rparr>"

definition entryB :: Entry where
  "entryB = \<lparr>Key = [], Value = [112], Seq = 77\<rparr>"

text \<open>
  One life of a journal over a storage: \<^verbatim>\<open>New\<close> with the default segment size and no
  encryptor, one \<^verbatim>\<open>Write\<close> of key \<^verbatim>\<open>k\<close> and value \<^verbatim>\<open>v\<close>, and \<^verbatim>\<open>Close\<close>. The result
  is what \<^verbatim>\<open>Write\<close> and \<^verbatim>\<open>Close\<close> returned and the storage left behind. \<open>sessions n\<close>
  runs \<open>n\<close> such lives one after the other over the same storage.
\<close>

definition session :: "MemStorage \<Rightarrow> (64 word outcome \<times> error option) \<times> MemStorage" where
  "session ms =
     (case New_Journal ms 0 None of
        (Ok w, ms1) \<Rightarrow>
          (case Write ms1 w [107] [118] of
             (r, ms2, w2) \<Rightarrow> (case Close ms2 w2 of (c, ms3, w3) \<Rightarrow> ((r, c), ms3)))
      | (Err e, ms1) \<Rightarrow> ((Err e, None), ms1)
      | (Panic, ms1) \<Rightarrow> ((Panic, None), ms1))"

fun sessions :: "nat \<Rightarrow> MemStorage \<Rightarrow> (64 word outcome \<times> error option) list" where
  "sessions 0 ms = []"
| "sessions (Suc n) ms = (case session ms of (rc, ms') \<Rightarrow> rc # sessions n ms')"

definition entry_kv :: "64 word \<Rightarrow> Entry" where
  "entry_kv seq = \<lparr>Key = [107], Value = [118], Seq = seq\<rparr>"

text \<open>The storage after the first life: the record of the first write, and the flag that
  \<^verbatim>\<open>Close\<close> has set on the file.\<close>

definition storage1 :: MemStorage where
  "storage1 = [(''000001.wal'', \<lparr>mf_data = frame (body (entry_kv 1)), mf_closed = True\<rparr>)]"

text \<open>The journal that \<^verbatim>\<open>New\<close> gives over that storage.\<close>

definition journal1 :: Journal where
  "journal1 = \<lparr>j_current = ''000001.wal'', j_writer = Some (NewWriter ''000001.wal''),
     j_closer = Some ''000001.wal'', j_seq = 1, j_size = 26, j_maxSize = 67108864,
     j_segment = 1, j_encryptor = None\<rparr>"

text \<open>
  A storage whose only segment holds the record of \<open>entry1\<close> and the first \<open>n\<close> bytes of
  the next record: what is on file when the write of the second record is cut short.
\<close>

definition torn_storage :: "nat \<Rightarrow> MemStorage" where
  "torn_storage n =
     [(''000001.wal'',
       \<lparr>mf_data = frame (body entry1) @ take n (frame (body (entry_kv 2))), mf_closed = False\<rparr>)]"


section \<open>The sink (internal/sink, internal/entity)\<close>

record Event =
  ev_IdempotencyID :: string
  ev_Sensor :: string
  ev_Value :: int
  ev_UnixTimestamp :: int

definition zero_Event :: Event where
  "zero_Event = \<lparr>ev_IdempotencyID = [], ev_Sensor = [], ev_Value = 0, ev_UnixTimestamp = 0\<rparr>"

text \<open>\<^verbatim>\<open>strconv.FormatInt(ts, 10)\<close>, and a Go string as the bytes it is.\<close>

definition FormatInt :: "int \<Rightarrow> string" where
  "FormatInt i = (if i < 0 then CHR ''-'' # decimal (nat (- i)) else decimal (nat i))"

definition bytes_of :: "string \<Rightarrow> bytes" where
  "bytes_of s = map (\<lambda>c. of_nat (of_char c)) s"

text \<open>\<^verbatim>\<open>Sink.fmtKey\<close>: the four \<^verbatim>\<open>WriteString\<close> calls on an empty buffer, and its bytes.\<close>

definition WriteString :: "bytes \<Rightarrow> string \<Rightarrow> bytes" where
  "WriteString b s = b @ bytes_of s"

definition fmtKey :: "string \<Rightarrow> int \<Rightarrow> bytes" where
  "fmtKey sensor ts =
     (let b = [];
          b = WriteString b ''sensor_'';
          b = WriteString b sensor;
          b = WriteString b ''{ts='';
          b = WriteString b (FormatInt ts);
          b = WriteString b ''}''
      in b)"

text \<open>
  A handler takes an event and returns an error or nil; here it also takes and returns
  the state it works on. A middleware wraps a handler.
\<close>

type_synonym 'w Handler = "'w \<Rightarrow> Event \<Rightarrow> unit outcome \<times> 'w"

text \<open>
  The sink with a journal of any type \<open>'j\<close> behind the interface \<^verbatim>\<open>Journal\<close>; \<open>None\<close>
  is the nil interface. The handler chain is built from the middlewares when needed,
  it is not a field here.
\<close>

record 'j Sink =
  s_journal :: "'j option"
  s_buf :: "Event RingBuffer"
  s_bufSize :: int
  s_closed :: bool

definition defaultBufSize :: int where
  "defaultBufSize = 128"

text \<open>\<^verbatim>\<open>New\<close> of the sink, with the option \<^verbatim>\<open>WithBufSize\<close> given or not.\<close>

definition New_Sink :: "'j option \<Rightarrow> int option \<Rightarrow> 'j Sink" where
  "New_Sink j bufSize =
     (let size = (case bufSize of None \<Rightarrow> defaultBufSize | Some n \<Rightarrow> n)
      in \<lparr>s_journal = j, s_buf = New zero_Event size, s_bufSize = size, s_closed = False\<rparr>)"

text \<open>
  \<^verbatim>\<open>Sink.appendToBuffer\<close>. \<open>MarshalMsg\<close> is the generated serialiser of the event, which
  is not part of the sources at hand, and \<open>jWrite\<close> is the method \<^verbatim>\<open>Write\<close> of the
  journal behind the interface; both are parameters. A call on the nil interface panics.
\<close>

definition appendToBuffer ::
  "(Event \<Rightarrow> error + bytes) \<Rightarrow> ('j \<Rightarrow> bytes \<Rightarrow> bytes \<Rightarrow> (error + 64 word) \<times> 'j) \<Rightarrow> 'j Sink Handler" where
  "appendToBuffer MarshalMsg jWrite s ev =
     (case Add ev (s_buf s) of
        ((loot, isDropped), buf') \<Rightarrow>
          (let s1 = s\<lparr>s_buf := buf'\<rparr> in
           if isDropped then
             (case MarshalMsg loot of
                Inl err \<Rightarrow> (Err err, s1)
              | Inr val \<Rightarrow>
                  (case s_journal s1 of
                     None \<Rightarrow> (Panic, s1)
                   | Some j \<Rightarrow>
                       (case jWrite j (fmtKey (ev_Sensor loot) (ev_UnixTimestamp loot)) val of
                          (Inl err, j') \<Rightarrow> (Err err, s1\<lparr>s_journal := Some j'\<rparr>)
                        | (Inr seq, j') \<Rightarrow> (Ok (), s1\<lparr>s_journal := Some j'\<rparr>))))
           else (Ok (), s1)))"

definition buildChain :: "('w Handler \<Rightarrow> 'w Handler) list \<Rightarrow> 'w Handler \<Rightarrow> 'w Handler" where
  "buildChain middlewares h = foldr (\<lambda>m h. m h) middlewares h"

definition Append ::
  "(Event \<Rightarrow> error + bytes) \<Rightarrow> ('j \<Rightarrow> bytes \<Rightarrow> bytes \<Rightarrow> (error + 64 word) \<times> 'j) \<Rightarrow>
   ('j Sink Handler \<Rightarrow> 'j Sink Handler) list \<Rightarrow> 'j Sink Handler" where
  "Append MarshalMsg jWrite middlewares s ev =
     (if s_closed s then (Err ErrSinkClosed, s)
      else if s_journal s = None then (Err ErrJournalIsNil, s)
      else buildChain middlewares (appendToBuffer MarshalMsg jWrite) s ev)"

text \<open>A journal that records the calls of \<^verbatim>\<open>Write\<close> and returns sequence number 1, as the
  mock of the sink's tests does.\<close>

definition mock_Write :: "(bytes \<times> bytes) list \<Rightarrow> bytes \<Rightarrow> bytes \<Rightarrow> (error + 64 word) \<times> (bytes \<times> bytes) list" where
  "mock_Write calls k v = (Inr 1, calls @ [(k, v)])"

text \<open>The events of a run are handed to a handler one after the other: the results and
  the last state.\<close>

fun feed :: "'w Handler \<Rightarrow> 'w \<Rightarrow> Event list \<Rightarrow> unit outcome list \<times> 'w" where
  "feed h w [] = ([], w)"
| "feed h w (ev # evs) =
     (case h w ev of (r, w1) \<Rightarrow> (case feed h w1 evs of (rs, w2) \<Rightarrow> (r # rs, w2)))"

definition event :: "string \<Rightarrow> int \<Rightarrow> int \<Rightarrow> Event" where
  "event sensor val ts = \<lparr>ev_IdempotencyID = [], ev_Sensor = sensor, ev_Value = val, ev_UnixTimestamp = ts\<rparr>"

section \<open>The deduplicator\<close>

text \<open>
  The \<^verbatim>\<open>sync.Map\<close> of the deduplicator holds keys only: a set. \<^verbatim>\<open>LoadOrStore\<close> is
  atomic, so a call of the handler is one step. The handler that \<^verbatim>\<open>Middleware\<close>
  returns works on the deduplicator and on the state of the handler it wraps.
\<close>

record Deduplicator =
  d_m :: "string set"
  d_count :: "64 word"
  d_interval :: int

definition NewDeduplicator :: "int \<Rightarrow> Deduplicator" where
  "NewDeduplicator interval = \<lparr>d_m = {}, d_count = 0, d_interval = interval\<rparr>"

text \<open>One tick of the sweep that \<^verbatim>\<open>Start\<close> runs.\<close>

definition sweep :: "Deduplicator \<Rightarrow> Deduplicator" where
  "sweep d = d\<lparr>d_m := {}, d_count := 0\<rparr>"

definition Middleware :: "'s Handler \<Rightarrow> (Deduplicator \<times> 's) Handler" where
  "Middleware next = (\<lambda>(d, s) ev.
     if ev_IdempotencyID ev = [] then (case next s ev of (r, s') \<Rightarrow> (r, (d, s')))
     else if ev_IdempotencyID ev \<in> d_m d then (Err ErrDuplicate, (d, s))
     else
       (let d' = d\<lparr>d_m := insert (ev_IdempotencyID ev) (d_m d), d_count := d_count d + 1\<rparr>
        in case next s ev of (r, s') \<Rightarrow> (r, (d', s'))))"

text \<open>The terminal handler of the tests: it keeps what reaches it.\<close>

definition received :: "Event list Handler" where
  "received s ev = (Ok (), s @ [ev])"

definition keyed :: "string \<Rightarrow> Event" where
  "keyed k = \<lparr>ev_IdempotencyID = k, ev_Sensor = ''temp'', ev_Value = 0, ev_UnixTimestamp = 0\<rparr>"

text \<open>A serialiser for concrete runs: one byte, the value of the event.\<close>

definition marshal_value :: "Event \<Rightarrow> error + bytes" where
  "marshal_value ev = Inr [of_int (ev_Value ev)]"

text \<open>A sink of capacity 2 over the recording journal that holds the given events.\<close>

definition sink_with :: "Event list \<Rightarrow> (bytes \<times> bytes) list Sink" where
  "sink_with evs = \<lparr>s_journal = Some [], s_buf = adds (New zero_Event 2) evs, s_bufSize = 2, s_closed = False\<rparr>"

text \<open>
  The event at index \<open>i\<close> of a run bears a key that is not empty and that the map
  held at the start (\<open>M\<close>) or that an earlier event of the run bears.
\<close>

definition duplicate_at :: "string set \<Rightarrow> Event list \<Rightarrow> nat \<Rightarrow> bool" where
  "duplicate_at M evs i \<longleftrightarrow>
     ev_IdempotencyID (evs ! i) \<noteq> [] \<and>
     (ev_IdempotencyID (evs ! i) \<in> M \<or> ev_IdempotencyID (evs ! i) \<in> ev_IdempotencyID ` set (take i evs))"


chapter \<open>Properties\<close>

section \<open>Ring buffer\<close>

lemma rb_inv_New: "rb_inv (New z c) []"
  by (simp add: rb_inv_def New_def)

lemma length_buf_New: "length (rb_buf (New z c)) = nat (max c 1)"
  by (simp add: New_def)

lemma length_buf_Add: "length (rb_buf (snd (Add v rb))) = length (rb_buf rb)"
  by (simp add: Add_def Let_def)

lemma mod_neq_close:
  fixes k L n :: nat
  assumes "k < L" "L < k + n"
  shows "k mod n \<noteq> L mod n"
proof
  assume "k mod n = L mod n"
  then have "(L - k) mod n = 0"
    using assms(1) by (metis less_imp_le_nat mod_eq_dvd_iff_nat dvd_imp_mod_0)
  moreover have "0 < L - k" "L - k < n" using assms by auto
  ultimately show False by simp
qed

lemma rb_inv_Add:
  assumes "rb_inv rb xs"
  shows "rb_inv (snd (Add v rb)) (xs @ [v])"
proof -
  let ?n = "length (rb_buf rb)"
  from assms have n: "0 < ?n" and p: "rb_pos rb = length xs mod ?n"
    and l: "rb_len rb = min (length xs) ?n"
    and c: "\<And>k. k < length xs \<Longrightarrow> length xs \<le> k + ?n \<Longrightarrow> rb_buf rb ! (k mod ?n) = xs ! k"
    by (auto simp: rb_inv_def)
  have pos': "rb_pos (snd (Add v rb)) = length (xs @ [v]) mod ?n"
    using p by (simp add: Add_def Let_def mod_Suc_eq)
  have len': "rb_len (snd (Add v rb)) = min (length (xs @ [v])) ?n"
    using l by (auto simp: Add_def Let_def min_def)
  have cont': "rb_buf (snd (Add v rb)) ! (k mod ?n) = (xs @ [v]) ! k"
    if "k < length (xs @ [v])" "length (xs @ [v]) \<le> k + ?n" for k
  proof (cases "k = length xs")
    case True
    then show ?thesis using n p by (simp add: Add_def Let_def)
  next
    case False
    with that have k: "k < length xs" "length xs < k + ?n" by auto
    then have "k mod ?n \<noteq> rb_pos rb" using p mod_neq_close by metis
    then have "rb_buf (snd (Add v rb)) ! (k mod ?n) = rb_buf rb ! (k mod ?n)"
      by (simp add: Add_def Let_def)
    also have "\<dots> = xs ! k" using c k by simp
    finally show ?thesis using k by (simp add: nth_append)
  qed
  show ?thesis
    unfolding rb_inv_def length_buf_Add using n pos' len' cont' by blast
qed

lemma adds_snoc: "adds rb (xs @ [v]) = snd (Add v (adds rb xs))"
  by (simp add: adds_def)

lemma rb_inv_adds: "rb_inv (adds (New z c) xs) xs"
proof (induction xs rule: rev_induct)
  case Nil
  show ?case by (simp add: adds_def rb_inv_New)
next
  case (snoc v xs)
  then show ?case by (simp add: adds_snoc rb_inv_Add)
qed

lemma length_buf_adds: "length (rb_buf (adds rb xs)) = length (rb_buf rb)"
  by (induction xs rule: rev_induct) (simp_all add: adds_def length_buf_Add)

lemma All_idx_inv:
  assumes "rb_inv rb xs" "i < rb_len rb"
  shows "All_idx rb i = (length xs - 1 - i) mod length (rb_buf rb)"
proof -
  let ?n = "length (rb_buf rb)"
  from assms have n: "0 < ?n" and p: "rb_pos rb = length xs mod ?n" and i: "i < length xs"
    by (auto simp: rb_inv_def)
  have "int (rb_pos rb) - 1 - int i + int ?n = (int (length xs) mod int ?n - (1 + int i)) + int ?n"
    using p by (simp add: zmod_int)
  then have "(int (rb_pos rb) - 1 - int i + int ?n) mod int ?n = (int (length xs) mod int ?n - (1 + int i)) mod int ?n"
    by (metis mod_add_self2)
  also have "\<dots> = (int (length xs) - (1 + int i)) mod int ?n"
    by (simp add: mod_diff_left_eq)
  also have "\<dots> = int ((length xs - 1 - i) mod ?n)"
    using i by (simp add: zmod_int of_nat_diff algebra_simps)
  finally show ?thesis by (simp add: All_idx_def)
qed

lemma All_inv:
  assumes "rb_inv rb xs"
  shows "All rb = take (length (rb_buf rb)) (rev xs)"
proof (rule nth_equalityI)
  let ?n = "length (rb_buf rb)"
  from assms have l: "rb_len rb = min (length xs) ?n" by (simp add: rb_inv_def)
  show "length (All rb) = length (take ?n (rev xs))"
    using l by (simp add: All_def min.commute)
  fix i assume "i < length (All rb)"
  then have i: "i < rb_len rb" by (simp add: All_def)
  then have i': "i < length xs" "i < ?n" using l by auto
  have "All rb ! i = rb_buf rb ! ((length xs - 1 - i) mod ?n)"
    using i assms by (simp add: All_def All_idx_inv)
  also have "\<dots> = xs ! (length xs - 1 - i)"
    using assms i' by (simp add: rb_inv_def)
  also have "\<dots> = rev xs ! i" using i' by (simp add: rev_nth)
  finally show "All rb ! i = take ?n (rev xs) ! i" using i' by simp
qed

lemma Add_dropped_inv:
  assumes "rb_inv rb xs" "rb_len rb = length (rb_buf rb)"
  shows "fst (fst (Add v rb)) = last (All rb)"
proof -
  let ?n = "length (rb_buf rb)"
  from assms have n: "0 < ?n" and p: "rb_pos rb = length xs mod ?n" and L: "?n \<le> length xs"
    by (auto simp: rb_inv_def)
  have "rb_buf rb ! rb_pos rb = rb_buf rb ! ((length xs - ?n) mod ?n)"
    using p L by (simp add: le_mod_geq)
  also have "\<dots> = xs ! (length xs - ?n)"
  proof -
    have "length xs - ?n < length xs" "length xs \<le> (length xs - ?n) + ?n" using L n by arith+
    then show ?thesis using assms(1) unfolding rb_inv_def by blast
  qed
  finally have d: "fst (fst (Add v rb)) = xs ! (length xs - ?n)" by (simp add: Add_def Let_def)
  have "last (All rb) = last (take ?n (rev xs))" using assms(1) by (simp add: All_inv)
  also have "\<dots> = rev xs ! (?n - 1)"
  proof -
    have t: "take ?n (rev xs) \<noteq> []" "length (take ?n (rev xs)) = ?n" using L n by auto
    have "last (take ?n (rev xs)) = take ?n (rev xs) ! (?n - 1)"
      using last_conv_nth [OF t(1)] t(2) by simp
    also have "\<dots> = rev xs ! (?n - 1)" using n by simp
    finally show ?thesis .
  qed
  also have "\<dots> = xs ! (length xs - ?n)"
  proof -
    have a: "?n - 1 < length xs" using L n by arith
    have b: "length xs - Suc (?n - 1) = length xs - ?n" using n by arith
    show ?thesis using rev_nth [OF a] b by simp
  qed
  finally show ?thesis using d by simp
qed

text \<open>
  Claim C5. For a ring buffer of capacity \<open>C\<close> that has received the values \<open>xs\<close>:
  \<open>Add v\<close> reports \<open>wasFull\<close> exactly when the used count equals \<open>C\<close> before the call,
  and then returns the oldest buffered value (the last one \<open>All\<close> yields) and leaves the
  used count alone; otherwise it increments the used count. \<open>All\<close> yields the buffered
  values newest first, that is the first \<open>C\<close> elements of the reversed insertion order.
  With capacity 3, after adding 1 to 5, \<open>All\<close> yields 5, 4, 3.
\<close>

theorem RingBuffer_Add_All:
  "let rb = adds (New z c) xs; C = length (rb_buf rb); r = Add v rb in
     C = nat (max c 1) \<and>
     (snd (fst r) \<longleftrightarrow> rb_len rb = C) \<and>
     (rb_len rb = C \<longrightarrow> fst (fst r) = last (All rb) \<and> rb_len (snd r) = rb_len rb) \<and>
     (rb_len rb \<noteq> C \<longrightarrow> rb_len (snd r) = rb_len rb + 1) \<and>
     All rb = take C (rev xs) \<and>
     All (snd r) = take C (v # rev xs) \<and>
     All (adds (New (0::int) 3) [1, 2, 3, 4, 5]) = [5, 4, 3]"
proof -
  let ?rb = "adds (New z c) xs"
  have inv: "rb_inv ?rb xs" by (rule rb_inv_adds)
  have inv': "rb_inv (snd (Add v ?rb)) (xs @ [v])" by (rule rb_inv_Add [OF inv])
  have C: "length (rb_buf ?rb) = nat (max c 1)"
    by (simp add: length_buf_adds length_buf_New)
  have full: "snd (fst (Add v ?rb)) \<longleftrightarrow> rb_len ?rb = length (rb_buf ?rb)"
    by (simp add: Add_def Let_def)
  have dropped: "rb_len ?rb = length (rb_buf ?rb) \<Longrightarrow> fst (fst (Add v ?rb)) = last (All ?rb)"
    by (rule Add_dropped_inv [OF inv])
  have len_full: "rb_len ?rb = length (rb_buf ?rb) \<Longrightarrow> rb_len (snd (Add v ?rb)) = rb_len ?rb"
    by (simp add: Add_def Let_def)
  have len_free: "rb_len ?rb \<noteq> length (rb_buf ?rb) \<Longrightarrow> rb_len (snd (Add v ?rb)) = rb_len ?rb + 1"
    by (simp add: Add_def Let_def)
  have all: "All ?rb = take (length (rb_buf ?rb)) (rev xs)"
    by (rule All_inv [OF inv])
  have all': "All (snd (Add v ?rb)) = take (length (rb_buf ?rb)) (v # rev xs)"
    using All_inv [OF inv'] by (simp add: length_buf_Add)
  have "rb_inv (adds (New (0::int) 3) [1, 2, 3, 4, 5]) [1, 2, 3, 4, 5]"
    by (rule rb_inv_adds)
  from All_inv [OF this] have ex: "All (adds (New (0::int) 3) [1, 2, 3, 4, 5]) = [5, 4, 3]"
    by (simp add: length_buf_adds length_buf_New)
  show ?thesis
    unfolding Let_def using C full dropped len_full len_free all all' ex by simp
qed

theorem RingBuffer_Add_All_witness:
  "rb_len (adds (New (0::int) 3) [1, 2, 3]) = 3 \<and>
   fst (Add 4 (adds (New (0::int) 3) [1, 2, 3])) = (1, True) \<and>
   rb_len (adds (New (0::int) 3) [1]) \<noteq> 3 \<and>
   rb_len (snd (Add 9 (adds (New (0::int) 3) [1]))) = 2"
proof -
  have a: "rb_len (adds (New (0::int) 3) [1, 2, 3]) = 3" by code_simp
  have b: "rb_len (adds (New (0::int) 3) [1]) = 1" by code_simp
  have c: "All (adds (New (0::int) 3) [1, 2, 3]) = [3, 2, 1]" by code_simp
  show ?thesis
    using RingBuffer_Add_All [where z = "0::int" and c = 3 and xs = "[1, 2, 3]" and v = 4]
      RingBuffer_Add_All [where z = "0::int" and c = 3 and xs = "[1]" and v = 9] a b c
    by (simp add: Let_def prod_eq_iff)
qed


section \<open>Big-endian integers\<close>

lemma bit_byte_at32:
  "bit (push_bit k (ucast (ucast (drop_bit k v) :: byte)) :: 32 word) n \<longleftrightarrow> k \<le> n \<and> n < k + 8 \<and> bit v n"
  for v :: "32 word"
proof (cases "k \<le> n")
  case True
  then obtain d where d: "n = k + d" using le_Suc_ex by blast
  show ?thesis unfolding d by (auto simp: bit_simps dest: bit_imp_le_length)
next
  case False
  then show ?thesis by (simp add: bit_simps)
qed

lemma bit_byte_low32:
  "bit (ucast (ucast v :: byte) :: 32 word) n \<longleftrightarrow> n < 8 \<and> bit v n" for v :: "32 word"
  by (auto simp: bit_simps dest: bit_imp_le_length)

lemma Uint32_PutUint32: "Uint32 (PutUint32 v @ rest) = Some v"
proof -
  have "ucast (ucast v :: byte) OR push_bit 8 (ucast (ucast (drop_bit 8 v) :: byte))
        OR push_bit 16 (ucast (ucast (drop_bit 16 v) :: byte))
        OR push_bit 24 (ucast (ucast (drop_bit 24 v) :: byte)) = v"
  proof (rule bit_word_eqI)
    fix n assume "n < LENGTH(32)"
    then have n: "n < 32" by simp
    then have c: "n < 8 \<or> (8 \<le> n \<and> n < 8 + 8) \<or> (16 \<le> n \<and> n < 16 + 8) \<or> (24 \<le> n \<and> n < 24 + 8)"
      by arith
    show "bit (ucast (ucast v :: byte) OR push_bit 8 (ucast (ucast (drop_bit 8 v) :: byte))
        OR push_bit 16 (ucast (ucast (drop_bit 16 v) :: byte))
        OR push_bit 24 (ucast (ucast (drop_bit 24 v) :: byte)) :: 32 word) n = bit v n"
      unfolding bit_or_iff bit_byte_at32 bit_byte_low32 using c by blast
  qed
  then show ?thesis by (simp add: PutUint32_def)
qed

lemma bit_byte_at64:
  "bit (push_bit k (ucast (ucast (drop_bit k v) :: byte)) :: 64 word) n \<longleftrightarrow> k \<le> n \<and> n < k + 8 \<and> bit v n"
  for v :: "64 word"
proof (cases "k \<le> n")
  case True
  then obtain d where d: "n = k + d" using le_Suc_ex by blast
  show ?thesis unfolding d by (auto simp: bit_simps dest: bit_imp_le_length)
next
  case False
  then show ?thesis by (simp add: bit_simps)
qed

lemma bit_byte_low64:
  "bit (ucast (ucast v :: byte) :: 64 word) n \<longleftrightarrow> n < 8 \<and> bit v n" for v :: "64 word"
  by (auto simp: bit_simps dest: bit_imp_le_length)

lemma Uint64_PutUint64: "Uint64 (PutUint64 v @ rest) = Some v"
proof -
  have "ucast (ucast v :: byte) OR push_bit 8 (ucast (ucast (drop_bit 8 v) :: byte))
        OR push_bit 16 (ucast (ucast (drop_bit 16 v) :: byte))
        OR push_bit 24 (ucast (ucast (drop_bit 24 v) :: byte))
        OR push_bit 32 (ucast (ucast (drop_bit 32 v) :: byte))
        OR push_bit 40 (ucast (ucast (drop_bit 40 v) :: byte))
        OR push_bit 48 (ucast (ucast (drop_bit 48 v) :: byte))
        OR push_bit 56 (ucast (ucast (drop_bit 56 v) :: byte)) = v"
  proof (rule bit_word_eqI)
    fix n assume "n < LENGTH(64)"
    then have n: "n < 64" by simp
    then have c: "n < 8 \<or> (8 \<le> n \<and> n < 8 + 8) \<or> (16 \<le> n \<and> n < 16 + 8) \<or> (24 \<le> n \<and> n < 24 + 8)
       \<or> (32 \<le> n \<and> n < 32 + 8) \<or> (40 \<le> n \<and> n < 40 + 8) \<or> (48 \<le> n \<and> n < 48 + 8) \<or> (56 \<le> n \<and> n < 56 + 8)"
      by arith
    show "bit (ucast (ucast v :: byte) OR push_bit 8 (ucast (ucast (drop_bit 8 v) :: byte))
        OR push_bit 16 (ucast (ucast (drop_bit 16 v) :: byte))
        OR push_bit 24 (ucast (ucast (drop_bit 24 v) :: byte))
        OR push_bit 32 (ucast (ucast (drop_bit 32 v) :: byte))
        OR push_bit 40 (ucast (ucast (drop_bit 40 v) :: byte))
        OR push_bit 48 (ucast (ucast (drop_bit 48 v) :: byte))
        OR push_bit 56 (ucast (ucast (drop_bit 56 v) :: byte)) :: 64 word) n = bit v n"
      unfolding bit_or_iff bit_byte_at64 bit_byte_low64 using c by blast
  qed
  then show ?thesis by (simp add: PutUint64_def)
qed

section \<open>Record framing\<close>

lemma length_PutUint32 [simp]: "length (PutUint32 v) = 4"
  by (simp add: PutUint32_def)

lemma length_PutUint64 [simp]: "length (PutUint64 v) = 8"
  by (simp add: PutUint64_def)

lemma length_body: "length (body e) = 16 + length (Key e) + length (Value e)"
  by (simp add: body_def)

lemma length_frame: "length (frame d) = 8 + length d"
  by (simp add: frame_def)

lemma Uint32_PutUint32_nil: "Uint32 (PutUint32 v) = Some v"
  using Uint32_PutUint32 [of v "[]"] by simp

lemma ReadFull_append:
  "length a = n \<Longrightarrow> 0 < n \<Longrightarrow> ReadFull n (a @ rest) = (Inr a, rest)"
  by (auto simp: ReadFull_def)

lemma ReadFull_payload:
  "length a = n \<Longrightarrow> ReadFull n (a @ rest) = (Inr a, rest)"
  by (cases "n = 0") (auto simp: ReadFull_def)

lemma unat_of_nat32: "n < 2 ^ 32 \<Longrightarrow> unat (of_nat n :: 32 word) = n"
  by (simp add: unat_of_nat)

lemma read_frame:
  assumes "length d < 2 ^ 32"
  shows "read None (frame d @ rest) = (decode d, rest)"
proof -
  have 1: "ReadFull 4 (frame d @ rest)
           = (Inr (PutUint32 (of_nat (length d))), PutUint32 (ChecksumIEEE d) @ d @ rest)"
    unfolding frame_def append_assoc by (rule ReadFull_append) simp_all
  have 2: "ReadFull 4 (PutUint32 (ChecksumIEEE d) @ d @ rest) = (Inr (PutUint32 (ChecksumIEEE d)), d @ rest)"
    by (rule ReadFull_append) simp_all
  have 3: "ReadFull (unat (of_nat (length d) :: 32 word)) (d @ rest) = (Inr d, rest)"
    using assms by (intro ReadFull_payload) (simp add: unat_of_nat32)
  show ?thesis
    unfolding read_def 1 by (simp add: Uint32_PutUint32_nil 2 3)
qed

lemma decode_body:
  assumes k: "length (Key e) < 2 ^ 32" and v: "length (Value e) < 2 ^ 32"
  shows "decode (body e) = Ok e"
proof -
  let ?k = "of_nat (length (Key e)) :: 32 word" and ?v = "of_nat (length (Value e)) :: 32 word"
  have a: "Uint64 (body e) = Some (Seq e)"
    unfolding body_def by (rule Uint64_PutUint64)
  have b: "drop 8 (body e) = PutUint32 ?k @ Key e @ PutUint32 ?v @ Value e"
    by (simp add: body_def)
  have c: "Uint32 (drop 8 (body e)) = Some ?k"
    unfolding b by (rule Uint32_PutUint32)
  have uk: "unat ?k = length (Key e)" and uv: "unat ?v = length (Value e)"
    using k v by (simp_all add: unat_of_nat32)
  have d: "drop 12 (body e) = Key e @ PutUint32 ?v @ Value e"
    by (simp add: body_def)
  have e1: "drop (12 + length (Key e)) (body e) = PutUint32 ?v @ Value e"
    by (simp add: body_def)
  have f: "Uint32 (drop (12 + length (Key e)) (body e)) = Some ?v"
    unfolding e1 by (rule Uint32_PutUint32)
  have g: "drop (16 + length (Key e)) (body e) = Value e"
    by (simp add: body_def)
  have h: "\<not> length (body e) < 12 + length (Key e)"
    by (simp add: length_body)
  have "decode (body e) = Ok \<lparr>Key = Key e, Value = Value e, Seq = Seq e\<rparr>"
    unfolding decode_def a c by (simp add: uk uv d f g h Let_def)
  then show ?thesis by simp
qed

lemma decode_Key_length: "decode d = Ok e \<Longrightarrow> length (Key e) < 2 ^ 32"
proof -
  assume a: "decode d = Ok e"
  have u: "unat (w :: 32 word) < 4294967296" for w using unsigned_less [of w] by simp
  from a show ?thesis
    by (auto simp: decode_def Let_def min_less_iff_disj u split: option.splits if_splits)
qed

lemma read_None_Ok: "read None r = (Ok e, r') \<Longrightarrow> \<exists>d. decode d = Ok e"
  by (auto simp: read_def split: prod.splits sum.splits option.splits if_splits)

lemma length_Key_oversize: "length (Key oversize_entry) = 2 ^ 32"
proof -
  have "Key oversize_entry = replicate (2 ^ 32) 0"
    by (simp only: oversize_entry_def Entry.select_convs)
  then show ?thesis by (simp only: length_replicate)
qed

text \<open>
  Claim C2, as stated: every entry, with any key and value bytes, survives encoding without
  an encryptor and decoding. It fails for an entry whose key has \<open>2 ^ 32\<close> bytes: what
  \<^verbatim>\<open>read\<close> returns has a key shorter than that.
\<close>

theorem frame_round_trip_counterexample:
  "encode None oversize_entry = Inr (frame (body oversize_entry)) \<and>
   fst (read None (frame (body oversize_entry))) \<noteq> Ok oversize_entry"
proof -
  have "fst (read None (frame (body oversize_entry))) \<noteq> Ok oversize_entry"
  proof
    assume "fst (read None (frame (body oversize_entry))) = Ok oversize_entry"
    then have "read None (frame (body oversize_entry))
               = (Ok oversize_entry, snd (read None (frame (body oversize_entry))))"
      by (metis prod.collapse)
    then obtain d where "decode d = Ok oversize_entry" using read_None_Ok by blast
    then have "length (Key oversize_entry) < 2 ^ 32" by (rule decode_Key_length)
    then show False by (simp only: length_Key_oversize less_irrefl)
  qed
  then show ?thesis by (simp add: encode_def)
qed

text \<open>
  Claim C2, amended: for every entry whose canonical body fits the 32-bit length field
  (16 bytes of sequence number and lengths, the key and the value, less than \<open>2 ^ 32\<close>
  together) and for any sequence number, encoding without an encryptor succeeds, and
  decoding the produced bytes, whatever follows them in the segment, returns the entry
  with the same key, value and sequence number and leaves the reader behind the record.
\<close>

theorem frame_round_trip:
  assumes "16 + length (Key e) + length (Value e) < 2 ^ 32"
  shows "encode None e = Inr (frame (body e)) \<and> read None (frame (body e) @ rest) = (Ok e, rest)"
proof -
  have "length (body e) < 2 ^ 32" using assms by (simp add: length_body)
  moreover have "length (Key e) < 2 ^ 32" "length (Value e) < 2 ^ 32" using assms by simp_all
  ultimately show ?thesis by (simp add: encode_def read_frame decode_body)
qed

theorem frame_round_trip_witness:
  "16 + length (Key \<lparr>Key = [], Value = [], Seq = 1\<rparr>) + length (Value \<lparr>Key = [], Value = [], Seq = 1\<rparr>) < (2::nat) ^ 32
   \<and> read None (frame (body \<lparr>Key = [], Value = [], Seq = 1\<rparr>) @ [7])
       = (Ok \<lparr>Key = [], Value = [], Seq = 1\<rparr>, [7])"
  using frame_round_trip [of "\<lparr>Key = [], Value = [], Seq = 1\<rparr>" "[7]"] by simp

text \<open>
  Claim C9 says that \<^verbatim>\<open>read\<close> returns an entry or an error on every input. On a record
  with declared length 0 and the checksum of the empty payload, which is 0, the checksum
  verifies and the parse of the empty payload panics in \<^verbatim>\<open>Uint64(data[0:])\<close>.
\<close>

theorem read_short_payload_panics:
  "read None [0, 0, 0, 0, 0, 0, 0, 0] = (Panic, [])"
  by (simp add: read_def ReadFull_def ChecksumIEEE_def decode_def)

text \<open>
  Claim C4, as stated: every input shorter than nonce and tag together (28 bytes) fails with
  \<open>ErrCiphertextShort\<close>. An input of 12 bytes passes the guard of \<^verbatim>\<open>Decrypt\<close>, which
  compares with the nonce size only.
\<close>

theorem Decrypt_short_counterexample:
  "length (replicate 12 (0::byte)) < 12 + 16 \<and>
   AESGCM_Decrypt (gcm zero_tag_seal reject_body) (replicate 12 0) \<noteq> Inl ErrCiphertextShort"
  by (simp add: AESGCM_Decrypt_def gcm_def gcm_Open_def Let_def)


text \<open>
  Claim C4, amended: an input shorter than the nonce (12 bytes) fails with
  \<open>ErrCiphertextShort\<close>; an input of 12 to 27 bytes is split and handed to the AEAD,
  whose own length guard fails with the authentication error.
\<close>

theorem Decrypt_short:
  "(length ct < 12 \<longrightarrow> AESGCM_Decrypt (gcm seal bdy) ct = Inl ErrCiphertextShort) \<and>
   (12 \<le> length ct \<and> length ct < 28 \<longrightarrow> AESGCM_Decrypt (gcm seal bdy) ct = Inl ErrOpen)"
  by (auto simp: AESGCM_Decrypt_def gcm_def gcm_Open_def Let_def)

theorem Decrypt_short_witness:
  "length [1, 2, 3, 4, 5 :: byte] < 12 \<and>
   AESGCM_Decrypt (gcm zero_tag_seal reject_body) [1, 2, 3, 4, 5] = Inl ErrCiphertextShort \<and>
   12 \<le> length (replicate 20 (0::byte)) \<and> length (replicate 20 (0::byte)) < 28 \<and>
   AESGCM_Decrypt (gcm zero_tag_seal reject_body) (replicate 20 0) = Inl ErrOpen"
  using Decrypt_short [of "[1, 2, 3, 4, 5]" zero_tag_seal reject_body]
    Decrypt_short [of "replicate 20 0" zero_tag_seal reject_body]
  by simp


section \<open>Segment names and their order\<close>

lemma digit_chars:
  "digit_char 0 = CHR ''0''" "digit_char (Suc 0) = CHR ''1''" "digit_char 1 = CHR ''1''"
  "digit_char 2 = CHR ''2''"
  "digit_char 3 = CHR ''3''" "digit_char 4 = CHR ''4''" "digit_char 5 = CHR ''5''"
  "digit_char 6 = CHR ''6''" "digit_char 7 = CHR ''7''" "digit_char 8 = CHR ''8''"
  "digit_char 9 = CHR ''9''"
  by code_simp+

lemma of_char_digit: "d < 10 \<Longrightarrow> of_char (digit_char d) = 48 + d"
  by (simp add: digit_char_def)

lemma digit_char_less: "a < 10 \<Longrightarrow> b < 10 \<Longrightarrow> a < b \<Longrightarrow> digit_char a < digit_char b"
  by (simp add: less_char_def of_char_digit)

lemma decimal_less10: "n < 10 \<Longrightarrow> decimal n = [digit_char n]"
  by (simp add: decimal.simps)

lemma decimal_ge10: "10 \<le> n \<Longrightarrow> decimal n = decimal (n div 10) @ [digit_char (n mod 10)]"
  by (subst decimal.simps) simp

lemma length_digitsW [simp]: "length (digitsW w n) = w"
  by (induction w arbitrary: n) simp_all

lemma digitsW_zero: "digitsW w 0 = replicate w (CHR ''0'')"
  by (induction w) (simp_all add: digit_chars replicate_append_same)

lemma length_decimal: "0 < w \<Longrightarrow> n < 10 ^ w \<Longrightarrow> length (decimal n) \<le> w"
proof (induction w arbitrary: n)
  case 0
  then show ?case by simp
next
  case (Suc w)
  show ?case
  proof (cases "n < 10")
    case True
    then show ?thesis by (simp add: decimal_less10)
  next
    case False
    then have w: "0 < w" using Suc.prems by (cases w) auto
    have "n div 10 < 10 ^ w" using Suc.prems(2) by (simp add: less_mult_imp_div_less mult.commute)
    from Suc.IH [OF w this] show ?thesis using False by (simp add: decimal_ge10)
  qed
qed

lemma pad0_decimal: "0 < w \<Longrightarrow> n < 10 ^ w \<Longrightarrow> pad0 w (decimal n) = digitsW w n"
proof (induction w arbitrary: n)
  case 0
  then show ?case by simp
next
  case (Suc w)
  show ?case
  proof (cases "n < 10")
    case True
    then show ?thesis
      by (simp add: decimal_less10 pad0_def digitsW_zero)
  next
    case False
    then have w: "0 < w" using Suc.prems by (cases w) auto
    have lt: "n div 10 < 10 ^ w" using Suc.prems(2) by (simp add: less_mult_imp_div_less mult.commute)
    have len: "length (decimal (n div 10)) \<le> w" by (rule length_decimal [OF w lt])
    have "pad0 (Suc w) (decimal n) = pad0 w (decimal (n div 10)) @ [digit_char (n mod 10)]"
      using False len by (simp add: decimal_ge10 pad0_def Suc_diff_le)
    then show ?thesis using Suc.IH [OF w lt] by simp
  qed
qed

lemma less_append_same_length:
  fixes xs ys :: string
  assumes "xs < ys" "length xs = length ys"
  shows "xs @ u < ys @ v"
  using assms unfolding list_less_def by (simp add: lexord_sufI)

lemma less_append_left:
  fixes u v :: string
  shows "u < v \<Longrightarrow> xs @ u < xs @ v"
  unfolding list_less_def by (simp add: lexord_append_leftI)

lemma digitsW_less: "m < n \<Longrightarrow> n < 10 ^ w \<Longrightarrow> digitsW w m < digitsW w n"
proof (induction w arbitrary: m n)
  case 0
  then show ?case by simp
next
  case (Suc w)
  have nlt: "n div 10 < 10 ^ w" using Suc.prems(2) by (simp add: less_mult_imp_div_less mult.commute)
  have le: "m div 10 \<le> n div 10" using Suc.prems(1) by (simp add: div_le_mono)
  show ?case
  proof (cases "m div 10 < n div 10")
    case True
    from Suc.IH [OF True nlt] show ?thesis
      by (simp add: less_append_same_length)
  next
    case False
    with le have eq: "m div 10 = n div 10" by simp
    have "m mod 10 < n mod 10"
      using Suc.prems(1) eq by (metis div_mult_mod_eq nat_add_left_cancel_less)
    then have "digit_char (m mod 10) < digit_char (n mod 10)"
      by (intro digit_char_less) simp_all
    then have "[digit_char (m mod 10)] < [digit_char (n mod 10)]" by simp
    then show ?thesis by (simp add: eq less_append_left)
  qed
qed

lemma segmentName_digitsW: "0 \<le> k \<Longrightarrow> k \<le> 999999 \<Longrightarrow> segmentName k = digitsW 6 (nat k) @ ''.wal''"
proof -
  assume "0 \<le> k" "k \<le> 999999"
  then have "nat k < 10 ^ 6" by simp
  then have "pad0 6 (decimal (nat k)) = digitsW 6 (nat k)" by (intro pad0_decimal) simp_all
  then show ?thesis using \<open>0 \<le> k\<close> by (simp add: segmentName_def)
qed

lemma segmentName_less:
  assumes "0 \<le> m" "m < n" "n \<le> 999999"
  shows "segmentName m < segmentName n"
proof -
  have "nat m < nat n" "nat n < 10 ^ 6" using assms by simp_all
  then have "digitsW 6 (nat m) < digitsW 6 (nat n)" by (rule digitsW_less)
  then have "digitsW 6 (nat m) @ ''.wal'' < digitsW 6 (nat n) @ ''.wal''"
    by (intro less_append_same_length) simp_all
  then show ?thesis using assms by (simp add: segmentName_digitsW)
qed

lemma sort_segmentNames:
  assumes "\<forall>k \<in> set ns. 1 \<le> k \<and> k \<le> 999999"
  shows "sort (map segmentName ns) = map segmentName (sort ns)"
proof (rule properties_for_sort)
  show "mset (map segmentName (sort ns)) = mset (map segmentName ns)" by simp
  have "sorted_wrt (\<lambda>x y. segmentName x \<le> segmentName y) (sort ns)"
  proof (rule sorted_wrt_mono_rel [where P = "(\<le>)"])
    fix x y assume "x \<in> set (sort ns)" "y \<in> set (sort ns)" "x \<le> y"
    then have "0 \<le> x" "y \<le> 999999" using assms by auto
    show "segmentName x \<le> segmentName y"
    proof (cases "x = y")
      case True then show ?thesis by simp
    next
      case False
      with \<open>x \<le> y\<close> have "x < y" by simp
      from segmentName_less [OF \<open>0 \<le> x\<close> this \<open>y \<le> 999999\<close>] show ?thesis by simp
    qed
  next
    show "sorted_wrt (\<le>) (sort ns)" by simp
  qed
  then show "sorted (map segmentName (sort ns))" by (simp add: sorted_map)
qed

lemma decimal_1000000: "decimal 1000000 = ''1000000''" by (simp add: decimal.simps digit_chars)
lemma decimal_999999: "decimal 999999 = ''999999''" by (simp add: decimal.simps digit_chars)
lemma decimal_small: "decimal 2 = ''2''" "decimal 10 = ''10''" by (simp_all add: decimal.simps digit_chars)

text \<open>
  Claim C8, as stated: for all segment numbers \<open>1 \<le> m < n\<close> the name of \<open>m\<close> sorts before
  the name of \<open>n\<close>. The format pads to six digits and cuts nothing: segment 1000000 has
  a name of seven digits, which sorts before the name of segment 999999, and the sort
  of \<^verbatim>\<open>Replay\<close> puts it first.
\<close>

theorem segmentName_order_counterexample:
  "(1::int) \<le> 999999 \<and> (999999::int) < 1000000 \<and>
   segmentName 999999 = ''999999.wal'' \<and> segmentName 1000000 = ''1000000.wal'' \<and>
   \<not> segmentName 999999 < segmentName 1000000 \<and>
   sort [segmentName 999999, segmentName 1000000] = [segmentName 1000000, segmentName 999999]"
  by (simp add: segmentName_def pad0_def decimal_1000000 decimal_999999)

text \<open>
  Claim C8, amended: for all segment numbers \<open>m\<close> and \<open>n\<close> with \<open>1 \<le> m < n \<le> 999999\<close> the
  name of \<open>m\<close> sorts before the name of \<open>n\<close>; therefore sorting the names of segments with
  numbers from 1 to 999999, as \<^verbatim>\<open>Replay\<close> does, gives the names in the order of the
  numbers.
\<close>

theorem segmentName_order:
  "(1 \<le> m \<and> m < n \<and> n \<le> 999999 \<longrightarrow> segmentName m < segmentName n) \<and>
   ((\<forall>k \<in> set ns. 1 \<le> k \<and> k \<le> 999999) \<longrightarrow> sort (map segmentName ns) = map segmentName (sort ns))"
  using segmentName_less [of m n] sort_segmentNames [of ns] by auto

theorem segmentName_order_witness:
  "(1::int) \<le> 2 \<and> (2::int) < 10 \<and> (10::int) \<le> 999999 \<and> segmentName 2 < segmentName 10 \<and>
   sort (map segmentName [10, 2]) = map segmentName [2, 10]"
  using segmentName_order [of 2 10 "[10, 2]"] by simp

section \<open>Writing to the journal\<close>

lemma segmentName_1: "segmentName 1 = ''000001.wal''" by code_simp
lemma Sscanf_wal_1: "Sscanf_wal ''000001.wal'' = Some 1" by code_simp

lemma New_Journal_empty: "New_Journal NewMemStorage 0 None = (Ok journal0, storage0)"
  by (simp add: New_Journal_def NewMemStorage_def openLatest_def ms_List_def newSegment_def
      ms_Create_def segmentName_1 journal0_def storage0_def NewWriter_def Let_def)

lemma put_buffered:
  "j_writer w = Some b \<Longrightarrow> bw_err b = None \<Longrightarrow> j_encryptor w = None \<Longrightarrow>
   j_size w < j_maxSize w \<Longrightarrow> length (bw_buf b) + length (frame (body e)) \<le> 4096 \<Longrightarrow>
   put ms w e = (Ok (), ms, w\<lparr>j_writer := Some (b\<lparr>bw_buf := bw_buf b @ frame (body e)\<rparr>),
                              j_size := j_size w + int (length (frame (body e)))\<rparr>)"
proof -
  assume a: "j_writer w = Some b" "bw_err b = None" "j_encryptor w = None" "j_size w < j_maxSize w"
    and fit: "length (bw_buf b) + length (frame (body e)) \<le> 4096"
  from fit have "\<not> length (frame (body e)) > bw_Available b"
    unfolding bw_Available_def by arith
  then have "bw_Write ms b (frame (body e))
             = ((length (frame (body e)), None), ms, b\<lparr>bw_buf := bw_buf b @ frame (body e)\<rparr>)"
    using a(2) by (simp add: bw_Write_def)
  then show ?thesis using a by (simp add: put_def journal_write_def encode_def Let_def)
qed

lemma newSegment_seq: "newSegment ms w = (r, ms', w') \<Longrightarrow> j_seq w' = j_seq w"
  by (auto simp: newSegment_def Let_def split: option.splits prod.splits outcome.splits sum.splits)

lemma put_seq: "put ms w e = (r, ms', w') \<Longrightarrow> j_seq w' = j_seq w"
  by (auto simp: put_def Let_def split: option.splits prod.splits outcome.splits sum.splits if_splits
      dest: newSegment_seq)

lemma WriteBatch_loop_frame:
  "WriteBatch_loop ms w entries = (Ok seqs, entries', ms', w') \<Longrightarrow>
   length entries' = length entries \<and> length seqs = length entries \<and>
   (\<forall>i < length entries.
      Seq (entries' ! i) = seqs ! i \<and> Key (entries' ! i) = Key (entries ! i) \<and>
      Value (entries' ! i) = Value (entries ! i) \<and> seqs ! i = j_seq w + of_nat (i + 1))"
proof (induction entries arbitrary: ms w seqs entries' ms' w')
  case Nil
  then show ?case by simp
next
  case (Cons e es)
  let ?w0 = "w\<lparr>j_seq := j_seq w + 1\<rparr>" and ?e' = "e\<lparr>Seq := j_seq w + 1\<rparr>"
  from Cons.prems obtain ms1 w1 seqs1 es1 where
    p: "put ms ?w0 ?e' = (Ok (), ms1, w1)" and
    l: "WriteBatch_loop ms1 w1 es = (Ok seqs1, es1, ms', w')" and
    s: "seqs = (j_seq w + 1) # seqs1" and e: "entries' = ?e' # es1"
    by (auto simp: Let_def split: prod.splits outcome.splits)
  have w1: "j_seq w1 = j_seq w + 1" using put_seq [OF p] by simp
  note IH = Cons.IH [OF l]
  show ?case
  proof (intro conjI allI impI)
    show "length entries' = length (e # es)" using IH e by simp
    show "length seqs = length (e # es)" using IH s by simp
  next
    fix i assume i: "i < length (e # es)"
    show "Seq (entries' ! i) = seqs ! i" using IH i s e by (cases i) simp_all
    show "Key (entries' ! i) = Key ((e # es) ! i)" using IH i s e by (cases i) simp_all
    show "Value (entries' ! i) = Value ((e # es) ! i)" using IH i s e by (cases i) simp_all
    show "seqs ! i = j_seq w + of_nat (i + 1)" using IH i s w1 by (cases i) (simp_all add: add.assoc)
  qed
qed

lemma WriteBatch_AB:
  "fst (WriteBatch storage0 journal0 [entryA, entryB]) = Ok [1, 2] \<and>
   fst (snd (WriteBatch storage0 journal0 [entryA, entryB])) = [entryA\<lparr>Seq := 1\<rparr>, entryB\<lparr>Seq := 2\<rparr>]"
proof -
  let ?a = "entryA\<lparr>Seq := 1\<rparr>" and ?b = "entryB\<lparr>Seq := 2\<rparr>"
  let ?w0 = "journal0\<lparr>j_seq := 1\<rparr>"
  let ?b1 = "(NewWriter ''000001.wal'')\<lparr>bw_buf := frame (body ?a)\<rparr>"
  let ?w1 = "?w0\<lparr>j_writer := Some ?b1, j_size := int (length (frame (body ?a)))\<rparr>"
  have la: "length (frame (body ?a)) = 28" and lb: "length (frame (body ?b)) = 25"
    by (simp_all add: length_frame length_body entryA_def entryB_def)
  have p1: "put storage0 ?w0 ?a = (Ok (), storage0, ?w1)"
    using put_buffered [of ?w0 "NewWriter ''000001.wal''" ?a storage0]
    by (simp add: journal0_def NewWriter_def la)
  let ?w1' = "?w1\<lparr>j_seq := 2\<rparr>"
  have p2: "\<exists>w2. put storage0 ?w1' ?b = (Ok (), storage0, w2)"
    using put_buffered [of ?w1' ?b1 ?b storage0]
    by (simp add: journal0_def NewWriter_def la lb)
  then obtain w2 where p2': "put storage0 ?w1' ?b = (Ok (), storage0, w2)" by blast
  have "j_seq journal0 = 0" by (simp add: journal0_def)
  then show ?thesis
    using p1 p2' by (simp add: WriteBatch_def Let_def)
qed

text \<open>
  Claim C10. On a successful \<^verbatim>\<open>WriteBatch\<close> the caller's slice is changed in place:
  it keeps its length, the entry at every index \<open>i\<close> has the \<open>i\<close>-th assigned sequence
  number (the journal's sequence number before the call plus \<open>i + 1\<close>) and its key and
  value as before, and the returned slice holds those sequence numbers in input order.
\<close>

theorem WriteBatch_in_place:
  assumes "fst (WriteBatch ms w entries) = Ok seqs"
  shows "let entries' = fst (snd (WriteBatch ms w entries)) in
     length entries' = length entries \<and> length seqs = length entries \<and>
     (\<forall>i < length entries.
        Seq (entries' ! i) = seqs ! i \<and> Key (entries' ! i) = Key (entries ! i) \<and>
        Value (entries' ! i) = Value (entries ! i) \<and> seqs ! i = j_seq w + of_nat (i + 1))"
proof -
  obtain r entries' ms' w' where eq: "WriteBatch_loop ms w entries = (r, entries', ms', w')"
    by (metis prod_cases4)
  with assms have "WriteBatch_loop ms w entries = (Ok seqs, entries', ms', w')"
    by (simp add: WriteBatch_def)
  from WriteBatch_loop_frame [OF this] show ?thesis
    by (simp add: WriteBatch_def eq Let_def)
qed

theorem WriteBatch_in_place_witness:
  "fst (WriteBatch storage0 journal0 [entryA, entryB]) = Ok [1, 2] \<and>
   fst (snd (WriteBatch storage0 journal0 [entryA, entryB]))
     = [\<lparr>Key = [97], Value = [98, 111, 98], Seq = 1\<rparr>, \<lparr>Key = [], Value = [112], Seq = 2\<rparr>]"
  using WriteBatch_in_place [of storage0 journal0 "[entryA, entryB]" "[1, 2]"] WriteBatch_AB
  by (simp add: entryA_def entryB_def)

section \<open>Reading a segment to its end\<close>

lemma list4: "length xs = 4 \<Longrightarrow> \<exists>a b c d. xs = [a, b, c, d]"
  by (auto simp: length_Suc_conv eval_nat_numeral)

lemma Uint32_take4: "4 \<le> length t \<Longrightarrow> Uint32 (take 4 t) = Uint32 t"
proof -
  assume "4 \<le> length t"
  then have "length (take 4 t) = 4" by simp
  then obtain a b c d where abcd: "take 4 t = [a, b, c, d]" using list4 by blast
  have "t = [a, b, c, d] @ drop 4 t" using abcd append_take_drop_id [of 4 t] by simp
  then have "Uint32 t = Uint32 ([a, b, c, d] @ drop 4 t)" by simp
  then show ?thesis unfolding abcd by simp
qed

lemma Uint32_Some: "4 \<le> length t \<Longrightarrow> \<exists>w. Uint32 t = Some w"
proof -
  assume "4 \<le> length t"
  then have "length (take 4 t) = 4" by simp
  then obtain a b c d where abcd: "take 4 t = [a, b, c, d]" using list4 by blast
  have "t = [a, b, c, d] @ drop 4 t" using abcd append_take_drop_id [of 4 t] by simp
  then have "Uint32 t = Uint32 ([a, b, c, d] @ drop 4 t)" by simp
  then show ?thesis by simp
qed

lemma read_partial:
  assumes ne: "t \<noteq> []"
    and partial: "length t < 8 \<or> (\<exists>len. Uint32 t = Some len \<and> length t < 8 + unat len)"
  shows "read enc t = (Err (if length t = 4 \<or> length t = 8 then EOF else ErrUnexpectedEOF), [])"
proof (cases "length t < 4")
  case True
  then show ?thesis using ne by (simp add: read_def ReadFull_def)
next
  case False
  then have l4: "4 \<le> length t" by simp
  then obtain len where len: "Uint32 t = Some len" using Uint32_Some by blast
  have r1: "ReadFull 4 t = (Inr (take 4 t), drop 4 t)"
    using l4 ne by (auto simp: ReadFull_def)
  have u1: "Uint32 (take 4 t) = Some len" using Uint32_take4 [OF l4] len by simp
  show ?thesis
  proof (cases "length t < 8")
    case True
    then show ?thesis
      using l4 unfolding read_def r1 by (auto simp: u1 ReadFull_def)
  next
    case False
    then have l8: "8 \<le> length t" by simp
    with partial len have short: "length t < 8 + unat len" by auto
    have r2: "ReadFull 4 (drop 4 t) = (Inr (take 4 (drop 4 t)), drop 8 t)"
      using l8 by (auto simp: ReadFull_def)
    obtain crc where crc: "Uint32 (take 4 (drop 4 t)) = Some crc"
      using Uint32_Some [of "take 4 (drop 4 t)"] l8 by auto
    have r3: "ReadFull (unat len) (drop 8 t)
              = (Inl (if length t = 8 then EOF else ErrUnexpectedEOF), [])"
      using short l8 by (auto simp: ReadFull_def)
    show ?thesis
      unfolding read_def r1 using l8 by (simp add: u1 r2 crc r3)
  qed
qed

lemma read_entry1: "read None (frame (body entry1) @ rest) = (Ok entry1, rest)"
proof -
  have "length (body entry1) < 2 ^ 32" by (simp add: length_body entry1_def)
  moreover have "decode (body entry1) = Ok entry1"
    by (rule decode_body) (simp_all add: entry1_def)
  ultimately show ?thesis by (simp add: read_frame)
qed

lemma length_frame_kv2: "length (frame (body (entry_kv 2))) = 26"
  by (simp add: length_frame length_body entry_kv_def)

lemma read_tail2: "read None (take 2 (frame (body (entry_kv 2)))) = (Err ErrUnexpectedEOF, [])"
proof -
  have l: "length (take 2 (frame (body (entry_kv 2)))) = 2" by (simp add: length_frame_kv2)
  then have ne: "take 2 (frame (body (entry_kv 2))) \<noteq> []" by auto
  show ?thesis using read_partial [OF ne, of None] l by simp
qed

lemma read_tail4: "read None (take 4 (frame (body (entry_kv 2)))) = (Err EOF, [])"
proof -
  have l: "length (take 4 (frame (body (entry_kv 2)))) = 4" by (simp add: length_frame_kv2)
  then have ne: "take 4 (frame (body (entry_kv 2))) \<noteq> []" by auto
  show ?thesis using read_partial [OF ne, of None] l by simp
qed

lemma scan_loop_torn:
  "scan_loop None (frame (body entry1) @ t) 0
   = (case read None t of (Err e, r') \<Rightarrow> if e = EOF then Ok 1 else Err e
      | (Panic, r') \<Rightarrow> Panic
      | (Ok e, r') \<Rightarrow> scan_loop None r' (if Seq e > 1 then Seq e else 1))"
proof -
  have s: "Seq entry1 = 1" by (simp add: entry1_def)
  have "scan_loop None (frame (body entry1) @ t) 0 = scan_loop None t 1"
    by (subst scan_loop.simps) (simp add: read_entry1 s)
  then show ?thesis by (simp add: scan_loop.simps [of None t 1])
qed

lemma replay_segment_torn:
  "read None t = (Err e, r') \<Longrightarrow>
   replay_segment None keep (frame (body entry1) @ t) []
   = ((if e = EOF then Ok () else Err e), [entry1])"
proof -
  assume t: "read None t = (Err e, r')"
  have "replay_segment None keep (frame (body entry1) @ t) [] = replay_segment None keep t [entry1]"
    by (subst replay_segment.simps) (simp add: read_entry1 keep_def)
  also have "\<dots> = ((if e = EOF then Ok () else Err e), [entry1])"
    by (subst replay_segment.simps) (simp add: t)
  finally show ?thesis .
qed

lemma torn_storage_Open:
  "ms_Open (torn_storage n) ''000001.wal''
   = Inr (frame (body entry1) @ take n (frame (body (entry_kv 2))))"
  by (simp add: ms_Open_def torn_storage_def)

lemma scan_torn2: "scan (torn_storage 2) w ''000001.wal'' = (Err ErrUnexpectedEOF, w)"
  if "j_encryptor w = None" "j_seq w = 0"
  using that by (simp add: scan_def torn_storage_Open scan_loop_torn read_tail2)

lemma scan_torn4: "scan (torn_storage 4) w ''000001.wal'' = (Ok (), w\<lparr>j_seq := 1\<rparr>)"
  if "j_encryptor w = None" "j_seq w = 0"
  using that by (simp add: scan_def torn_storage_Open scan_loop_torn read_tail4)

lemma New_Journal_torn2: "New_Journal (torn_storage 2) 0 None = (Err ErrUnexpectedEOF, torn_storage 2)"
proof -
  have l: "ms_List (torn_storage 2) = [''000001.wal'']" by (simp add: ms_List_def torn_storage_def)
  show ?thesis
    by (simp add: New_Journal_def openLatest_def l Sscanf_wal_1 segmentName_1 scan_torn2 Let_def)
qed

lemma Replay_torn:
  "read None (take n (frame (body (entry_kv 2)))) = (Err e, r') \<Longrightarrow> j_encryptor w = None \<Longrightarrow>
   Replay (torn_storage n) w keep [] = ((if e = EOF then Ok () else Err e), [entry1])"
proof -
  assume t: "read None (take n (frame (body (entry_kv 2)))) = (Err e, r')" and w: "j_encryptor w = None"
  have l: "sort (ms_List (torn_storage n)) = [''000001.wal'']"
    by (simp add: ms_List_def torn_storage_def)
  show ?thesis
    unfolding Replay_def l w
    by (simp add: torn_storage_Open replay_segment_torn [OF t])
qed

text \<open>
  Claim C3 says that a trailing partial record ends the segment cleanly, without an error
  to the caller, during the startup scan and during \<^verbatim>\<open>Replay\<close>. On a storage whose
  segment holds one whole record and the first two bytes of the next one, the scan
  returns \<open>ErrUnexpectedEOF\<close>, so \<^verbatim>\<open>New\<close> fails with it, and \<^verbatim>\<open>Replay\<close> returns it after
  the first entry: \<^verbatim>\<open>io.ReadFull\<close> gives \<open>EOF\<close> only when it has read nothing, and both loops
  stop cleanly on \<open>EOF\<close> only. When the cut falls after the first four bytes of the
  next record, the same scan and the same \<^verbatim>\<open>Replay\<close> end cleanly.
\<close>

theorem torn_tail_is_an_error:
  "encode None entry1 = Inr (frame (body entry1)) \<and>
   encode None (entry_kv 2) = Inr (frame (body (entry_kv 2))) \<and>
   ms_Open (torn_storage 2) ''000001.wal''
     = Inr (frame (body entry1) @ take 2 (frame (body (entry_kv 2)))) \<and>
   scan (torn_storage 2) journal0 ''000001.wal'' = (Err ErrUnexpectedEOF, journal0) \<and>
   New_Journal (torn_storage 2) 0 None = (Err ErrUnexpectedEOF, torn_storage 2) \<and>
   Replay (torn_storage 2) journal0 keep [] = (Err ErrUnexpectedEOF, [entry1]) \<and>
   scan (torn_storage 4) journal0 ''000001.wal'' = (Ok (), journal0\<lparr>j_seq := 1\<rparr>) \<and>
   Replay (torn_storage 4) journal0 keep [] = (Ok (), [entry1])"
proof -
  have j: "j_encryptor journal0 = None" "j_seq journal0 = 0" by (simp_all add: journal0_def)
  have r2: "Replay (torn_storage 2) journal0 keep [] = (Err ErrUnexpectedEOF, [entry1])"
    using Replay_torn [OF read_tail2 j(1)] by simp
  have r4: "Replay (torn_storage 4) journal0 keep [] = (Ok (), [entry1])"
    using Replay_torn [OF read_tail4 j(1)] by simp
  show ?thesis
    using scan_torn2 [OF j] scan_torn4 [OF j] New_Journal_torn2 r2 r4
    by (simp add: encode_def torn_storage_Open)
qed

section \<open>Sequence numbers across restarts\<close>

lemma Write_seq:
  "Write ms w k v = (Ok s, ms', w') \<Longrightarrow> s = j_seq w + 1 \<and> j_seq w' = j_seq w + 1"
  by (auto simp: Write_def Let_def split: prod.splits outcome.splits dest: put_seq)

lemma Write_buffered:
  assumes "j_writer w = Some b" "bw_err b = None" "j_encryptor w = None" "j_size w < j_maxSize w"
    and "length (bw_buf b) + length (frame (body \<lparr>Key = k, Value = v, Seq = j_seq w + 1\<rparr>)) \<le> 4096"
  shows "Write ms w k v =
     (Ok (j_seq w + 1), ms,
      w\<lparr>j_seq := j_seq w + 1,
        j_writer := Some (b\<lparr>bw_buf := bw_buf b @ frame (body \<lparr>Key = k, Value = v, Seq = j_seq w + 1\<rparr>)\<rparr>),
        j_size := j_size w + int (length (frame (body \<lparr>Key = k, Value = v, Seq = j_seq w + 1\<rparr>)))\<rparr>)"
proof -
  let ?w0 = "w\<lparr>j_seq := j_seq w + 1\<rparr>"
  let ?e = "\<lparr>Key = k, Value = v, Seq = j_seq w + 1\<rparr>"
  have "put ms ?w0 ?e = (Ok (), ms, ?w0\<lparr>j_writer := Some (b\<lparr>bw_buf := bw_buf b @ frame (body ?e)\<rparr>),
                              j_size := j_size ?w0 + int (length (frame (body ?e)))\<rparr>)"
    by (rule put_buffered) (use assms in simp_all)
  then show ?thesis by (simp add: Write_def Let_def)
qed

lemma length_frame_kv: "length (frame (body (entry_kv s))) = 26"
  by (simp add: length_frame length_body entry_kv_def)

lemma session_first: "session NewMemStorage = ((Ok 1, None), storage1)"
proof -
  let ?b = "(NewWriter ''000001.wal'')\<lparr>bw_buf := frame (body (entry_kv 1))\<rparr>"
  let ?w1 = "journal0\<lparr>j_seq := 1, j_writer := Some ?b, j_size := 26\<rparr>"
  have w: "Write storage0 journal0 [107] [118] = (Ok 1, storage0, ?w1)"
    using Write_buffered [of journal0 "NewWriter ''000001.wal''" "[107]" "[118]" storage0]
      length_frame_kv [of 1]
    by (simp add: journal0_def NewWriter_def entry_kv_def)
  have ne: "frame (body (entry_kv 1)) \<noteq> []"
    using length_frame_kv [of 1] by auto
  have f: "bw_Flush storage0 ?b
           = (None, [(''000001.wal'', \<lparr>mf_data = frame (body (entry_kv 1)), mf_closed = False\<rparr>)],
              ?b\<lparr>bw_buf := []\<rparr>)"
    using ne by (simp add: bw_Flush_def mw_Write_def storage0_def NewWriter_def)
  have c: "Close storage0 ?w1 = (None, storage1, ?w1\<lparr>j_writer := Some (?b\<lparr>bw_buf := []\<rparr>)\<rparr>)"
    by (simp add: Close_def f journal0_def mw_Close_def storage1_def)
  show ?thesis
    by (simp add: session_def New_Journal_empty w c)
qed

lemma read_nil: "read enc [] = (Err EOF, [])"
  by (simp add: read_def ReadFull_def)

lemma scan_loop_kv: "scan_loop None (frame (body (entry_kv 1))) 0 = Ok 1"
proof -
  have "length (body (entry_kv 1)) < 2 ^ 32" by (simp add: length_body entry_kv_def)
  moreover have "decode (body (entry_kv 1)) = Ok (entry_kv 1)"
    by (rule decode_body) (simp_all add: entry_kv_def)
  ultimately have r: "read None (frame (body (entry_kv 1))) = (Ok (entry_kv 1), [])"
    using read_frame [of "body (entry_kv 1)" "[]"] by simp
  have s: "Seq (entry_kv 1) = 1" by (simp add: entry_kv_def)
  have "scan_loop None (frame (body (entry_kv 1))) 0 = scan_loop None [] 1"
    by (subst scan_loop.simps) (simp add: r s)
  also have "\<dots> = Ok 1" by (subst scan_loop.simps) (simp add: read_nil)
  finally show ?thesis .
qed

lemma New_Journal_storage1: "New_Journal storage1 0 None = (Ok journal1, storage1)"
  by (simp add: New_Journal_def openLatest_def ms_List_def storage1_def Sscanf_wal_1 segmentName_1
      scan_def ms_Open_def scan_loop_kv ms_OpenAppend_def length_frame_kv journal1_def Let_def)

lemma session_again: "session storage1 = ((Ok 2, Some ErrClosed), storage1)"
proof -
  let ?b = "(NewWriter ''000001.wal'')\<lparr>bw_buf := frame (body (entry_kv 2))\<rparr>"
  let ?w2 = "journal1\<lparr>j_seq := 2, j_writer := Some ?b, j_size := 52\<rparr>"
  have w: "Write storage1 journal1 [107] [118] = (Ok 2, storage1, ?w2)"
    using Write_buffered [of journal1 "NewWriter ''000001.wal''" "[107]" "[118]" storage1]
      length_frame_kv [of 2]
    by (simp add: journal1_def NewWriter_def entry_kv_def)
  have ne: "frame (body (entry_kv 2)) \<noteq> []"
    using length_frame_kv [of 2] by auto
  have f: "bw_Flush storage1 ?b = (Some ErrClosed, storage1, ?b\<lparr>bw_err := Some ErrClosed\<rparr>)"
    using ne by (simp add: bw_Flush_def mw_Write_def storage1_def NewWriter_def)
  have c: "Close storage1 ?w2
           = (Some ErrClosed, storage1, ?w2\<lparr>j_writer := Some (?b\<lparr>bw_err := Some ErrClosed\<rparr>)\<rparr>)"
    using f by (simp add: Close_def journal1_def mw_Close_def storage1_def)
  show ?thesis
    by (simp add: session_def New_Journal_storage1 w c)
qed

text \<open>
  Claim C1 says that the sequence numbers that successful writes return go on strictly
  increasing and without a gap over \<^verbatim>\<open>Close\<close> and reopening. Over the in-memory storage
  three lives of a journal, each with one successful \<^verbatim>\<open>Write\<close>, return 1, 2 and 2:
  \<^verbatim>\<open>Close\<close> marks the file itself closed, the record of the second life stays in the
  buffered writer (its \<^verbatim>\<open>Close\<close> fails with \<open>ErrClosed\<close>), and the third life finds
  sequence number 1 in its scan again.
\<close>

theorem sessions_repeat_sequence:
  "sessions 3 NewMemStorage = [(Ok 1, None), (Ok 2, Some ErrClosed), (Ok 2, Some ErrClosed)]"
  by (simp add: eval_nat_numeral session_first session_again)

section \<open>The overflow of the sink's buffer\<close>

lemma fmtKey_eq:
  "fmtKey sensor ts = bytes_of (''sensor_'' @ sensor @ ''{ts='' @ FormatInt ts @ ''}'')"
  by (simp add: fmtKey_def WriteString_def bytes_of_def)

lemma decimal_1000: "decimal 1000 = ''1000''"
  by (simp add: decimal.simps digit_chars)

lemma fmtKey_temp_1000: "fmtKey ''temp'' 1000 = bytes_of ''sensor_temp{ts=1000}''"
  by (simp add: fmtKey_eq FormatInt_def decimal_1000)

lemma appendToBuffer_full:
  assumes "rb_len (s_buf s) = length (rb_buf (s_buf s))" and "s_journal s = Some j"
    and "MarshalMsg (fst (fst (Add ev (s_buf s)))) = Inr val"
  shows "snd (appendToBuffer MarshalMsg jWrite s ev)
         = s\<lparr>s_buf := snd (Add ev (s_buf s)),
             s_journal := Some (snd (jWrite j (fmtKey (ev_Sensor (fst (fst (Add ev (s_buf s)))))
                                               (ev_UnixTimestamp (fst (fst (Add ev (s_buf s)))))) val))\<rparr>"
proof -
  obtain loot d buf' where a: "Add ev (s_buf s) = ((loot, d), buf')" by (metis prod.collapse)
  have d: "d" using a assms(1) by (auto simp: Add_def Let_def)
  show ?thesis
    using assms(2,3) d unfolding appendToBuffer_def a
    by (auto simp: Let_def split: prod.splits sum.splits)
qed

lemma appendToBuffer_free:
  assumes "rb_len (s_buf s) \<noteq> length (rb_buf (s_buf s))"
  shows "appendToBuffer MarshalMsg jWrite s ev = (Ok (), s\<lparr>s_buf := snd (Add ev (s_buf s))\<rparr>)"
proof -
  obtain loot d buf' where a: "Add ev (s_buf s) = ((loot, d), buf')" by (metis prod.collapse)
  have d: "\<not> d" using a assms(1) by (auto simp: Add_def Let_def)
  show ?thesis using d unfolding appendToBuffer_def a by (simp add: Let_def)
qed

lemma three_appends:
  assumes "MarshalMsg (event ''temp'' 1 1000) = Inr v1"
  shows "feed (Append MarshalMsg mock_Write []) (New_Sink (Some []) (Some 2))
           [event ''temp'' 1 1000, event ''temp'' 2 2000, event ''temp'' 3 3000]
         = ([Ok (), Ok (), Ok ()],
            \<lparr>s_journal = Some [(bytes_of ''sensor_temp{ts=1000}'', v1)],
             s_buf = \<lparr>rb_buf = [event ''temp'' 3 3000, event ''temp'' 2 2000], rb_pos = 1, rb_len = 2\<rparr>,
             s_bufSize = 2, s_closed = False\<rparr>)"
proof -
  let ?s0 = "New_Sink (Some []) (Some 2) :: (bytes \<times> bytes) list Sink"
  let ?e1 = "event ''temp'' 1 1000" and ?e2 = "event ''temp'' 2 2000" and ?e3 = "event ''temp'' 3 3000"
  let ?h = "Append MarshalMsg mock_Write []"
  let ?s1 = "\<lparr>s_journal = Some [], s_buf = \<lparr>rb_buf = [?e1, zero_Event], rb_pos = 1, rb_len = 1\<rparr>,
             s_bufSize = 2, s_closed = False\<rparr> :: (bytes \<times> bytes) list Sink"
  let ?s2 = "\<lparr>s_journal = Some [], s_buf = \<lparr>rb_buf = [?e1, ?e2], rb_pos = 0, rb_len = 2\<rparr>,
             s_bufSize = 2, s_closed = False\<rparr> :: (bytes \<times> bytes) list Sink"
  have s0: "?s0 = \<lparr>s_journal = Some [], s_buf = \<lparr>rb_buf = [zero_Event, zero_Event], rb_pos = 0, rb_len = 0\<rparr>,
             s_bufSize = 2, s_closed = False\<rparr>"
    by (simp add: New_Sink_def New_def eval_nat_numeral)
  have 1: "?h ?s0 ?e1 = (Ok (), ?s1)"
    unfolding s0 by (simp add: Append_def buildChain_def appendToBuffer_def Add_def Let_def)
  have 2: "?h ?s1 ?e2 = (Ok (), ?s2)"
    by (simp add: Append_def buildChain_def appendToBuffer_def Add_def Let_def)
  have k: "fmtKey (ev_Sensor ?e1) (ev_UnixTimestamp ?e1) = bytes_of ''sensor_temp{ts=1000}''"
    by (simp add: event_def fmtKey_temp_1000)
  have 3: "?h ?s2 ?e3 = (Ok (), \<lparr>s_journal = Some [(bytes_of ''sensor_temp{ts=1000}'', v1)],
             s_buf = \<lparr>rb_buf = [?e3, ?e2], rb_pos = 1, rb_len = 2\<rparr>,
             s_bufSize = 2, s_closed = False\<rparr>)"
    by (simp add: Append_def buildChain_def appendToBuffer_def Add_def Let_def assms k mock_Write_def)
  show ?thesis by (simp only: feed.simps 1 2 3 prod.case)
qed

lemma adds_two:
  "adds (New zero_Event 2) [a, b] = \<lparr>rb_buf = [a, b], rb_pos = 0, rb_len = 2\<rparr>"
  "adds (New zero_Event 2) [a] = \<lparr>rb_buf = [a, zero_Event], rb_pos = 1, rb_len = 1\<rparr>"
  by (simp_all add: adds_def New_def Add_def Let_def eval_nat_numeral)

text \<open>
  Claim C6. The key that \<^verbatim>\<open>fmtKey\<close> builds is \<^verbatim>\<open>sensor_\<close>, the sensor name, \<^verbatim>\<open>{ts=\<close>,
  the timestamp in decimal and \<^verbatim>\<open>}\<close>. With no middleware, \<^verbatim>\<open>Append\<close> on an open sink
  with a journal is \<^verbatim>\<open>appendToBuffer\<close>. When the buffer is full, \<^verbatim>\<open>appendToBuffer\<close>
  leaves the journal in the state after exactly one \<^verbatim>\<open>Write\<close>, whose key is built from
  the sensor and timestamp of the event that \<^verbatim>\<open>Add\<close> dropped and whose value is that
  event serialised; the dropped event is the oldest one of the buffer (the last that
  \<^verbatim>\<open>All\<close> yields). When the buffer is not full the journal is not called. With
  capacity 2 and the events 1, 2, 3 appended, the recording journal has seen exactly one
  call, with the key \<^verbatim>\<open>sensor_temp{ts=1000}\<close> and the serialised event 1.
\<close>

theorem overflow_written_to_journal:
  "fmtKey sensor ts = bytes_of (''sensor_'' @ sensor @ ''{ts='' @ FormatInt ts @ ''}'') \<and>
   (\<not> s_closed s \<and> s_journal s = Some j \<longrightarrow>
      Append MarshalMsg jWrite [] s ev = appendToBuffer MarshalMsg jWrite s ev) \<and>
   (rb_len (s_buf s) = length (rb_buf (s_buf s)) \<and> s_journal s = Some j \<and>
    MarshalMsg (fst (fst (Add ev (s_buf s)))) = Inr val \<longrightarrow>
      snd (appendToBuffer MarshalMsg jWrite s ev)
      = s\<lparr>s_buf := snd (Add ev (s_buf s)),
          s_journal := Some (snd (jWrite j (fmtKey (ev_Sensor (fst (fst (Add ev (s_buf s)))))
                                            (ev_UnixTimestamp (fst (fst (Add ev (s_buf s)))))) val))\<rparr>) \<and>
   (rb_len (s_buf s) = length (rb_buf (s_buf s)) \<and> s_buf s = adds (New z c) xs \<longrightarrow>
      fst (fst (Add ev (s_buf s))) = last (All (s_buf s))) \<and>
   (rb_len (s_buf s) \<noteq> length (rb_buf (s_buf s)) \<longrightarrow>
      appendToBuffer MarshalMsg jWrite s ev = (Ok (), s\<lparr>s_buf := snd (Add ev (s_buf s))\<rparr>)) \<and>
   (MarshalMsg (event ''temp'' 1 1000) = Inr v1 \<longrightarrow>
      fst (feed (Append MarshalMsg mock_Write []) (New_Sink (Some []) (Some 2))
            [event ''temp'' 1 1000, event ''temp'' 2 2000, event ''temp'' 3 3000]) = [Ok (), Ok (), Ok ()] \<and>
      s_journal (snd (feed (Append MarshalMsg mock_Write []) (New_Sink (Some []) (Some 2))
            [event ''temp'' 1 1000, event ''temp'' 2 2000, event ''temp'' 3 3000]))
      = Some [(bytes_of ''sensor_temp{ts=1000}'', v1)])"
proof (intro conjI impI)
  show "fmtKey sensor ts = bytes_of (''sensor_'' @ sensor @ ''{ts='' @ FormatInt ts @ ''}'')"
    by (rule fmtKey_eq)
  show "Append MarshalMsg jWrite [] s ev = appendToBuffer MarshalMsg jWrite s ev"
    if "\<not> s_closed s \<and> s_journal s = Some j"
    using that by (simp add: Append_def buildChain_def)
  show "snd (appendToBuffer MarshalMsg jWrite s ev)
      = s\<lparr>s_buf := snd (Add ev (s_buf s)),
          s_journal := Some (snd (jWrite j (fmtKey (ev_Sensor (fst (fst (Add ev (s_buf s)))))
                                            (ev_UnixTimestamp (fst (fst (Add ev (s_buf s)))))) val))\<rparr>"
    if "rb_len (s_buf s) = length (rb_buf (s_buf s)) \<and> s_journal s = Some j \<and>
        MarshalMsg (fst (fst (Add ev (s_buf s)))) = Inr val"
    using that by (intro appendToBuffer_full) simp_all
  show "fst (fst (Add ev (s_buf s))) = last (All (s_buf s))"
    if "rb_len (s_buf s) = length (rb_buf (s_buf s)) \<and> s_buf s = adds (New z c) xs"
  proof -
    from that have e: "s_buf s = adds (New z c) xs" by simp
    from that have "rb_len (adds (New z c) xs) = length (rb_buf (adds (New z c) xs))"
      unfolding e by simp
    from Add_dropped_inv [OF rb_inv_adds this] show ?thesis unfolding e .
  qed
  show "appendToBuffer MarshalMsg jWrite s ev = (Ok (), s\<lparr>s_buf := snd (Add ev (s_buf s))\<rparr>)"
    if "rb_len (s_buf s) \<noteq> length (rb_buf (s_buf s))"
    using that by (rule appendToBuffer_free)
  show "fst (feed (Append MarshalMsg mock_Write []) (New_Sink (Some []) (Some 2))
            [event ''temp'' 1 1000, event ''temp'' 2 2000, event ''temp'' 3 3000]) = [Ok (), Ok (), Ok ()]"
    if "MarshalMsg (event ''temp'' 1 1000) = Inr v1"
    using three_appends [of MarshalMsg v1] that by simp
  show "s_journal (snd (feed (Append MarshalMsg mock_Write []) (New_Sink (Some []) (Some 2))
            [event ''temp'' 1 1000, event ''temp'' 2 2000, event ''temp'' 3 3000]))
      = Some [(bytes_of ''sensor_temp{ts=1000}'', v1)]"
    if "MarshalMsg (event ''temp'' 1 1000) = Inr v1"
    using three_appends [of MarshalMsg v1] that by simp
qed

theorem overflow_written_to_journal_witness:
  "\<not> s_closed (sink_with [event ''temp'' 1 1000, event ''temp'' 2 2000]) \<and>
   s_journal (sink_with [event ''temp'' 1 1000, event ''temp'' 2 2000]) = Some [] \<and>
   rb_len (s_buf (sink_with [event ''temp'' 1 1000, event ''temp'' 2 2000]))
     = length (rb_buf (s_buf (sink_with [event ''temp'' 1 1000, event ''temp'' 2 2000]))) \<and>
   marshal_value (fst (fst (Add (event ''temp'' 3 3000)
       (s_buf (sink_with [event ''temp'' 1 1000, event ''temp'' 2 2000]))))) = Inr [1] \<and>
   s_journal (snd (Append marshal_value mock_Write []
       (sink_with [event ''temp'' 1 1000, event ''temp'' 2 2000]) (event ''temp'' 3 3000)))
     = Some [(bytes_of ''sensor_temp{ts=1000}'', [1])] \<and>
   last (All (s_buf (sink_with [event ''temp'' 1 1000, event ''temp'' 2 2000]))) = event ''temp'' 1 1000 \<and>
   rb_len (s_buf (sink_with [event ''temp'' 1 1000]))
     \<noteq> length (rb_buf (s_buf (sink_with [event ''temp'' 1 1000]))) \<and>
   s_journal (snd (appendToBuffer marshal_value mock_Write
       (sink_with [event ''temp'' 1 1000]) (event ''temp'' 2 2000))) = Some [] \<and>
   marshal_value (event ''temp'' 1 1000) = Inr [1] \<and>
   s_journal (snd (feed (Append marshal_value mock_Write []) (New_Sink (Some []) (Some 2))
       [event ''temp'' 1 1000, event ''temp'' 2 2000, event ''temp'' 3 3000]))
     = Some [(bytes_of ''sensor_temp{ts=1000}'', [1])]"
proof -
  let ?e1 = "event ''temp'' 1 1000" and ?e2 = "event ''temp'' 2 2000" and ?e3 = "event ''temp'' 3 3000"
  have m: "marshal_value ?e1 = Inr [1]" by (simp add: marshal_value_def event_def)
  have k: "fmtKey (ev_Sensor ?e1) (ev_UnixTimestamp ?e1) = bytes_of ''sensor_temp{ts=1000}''"
    by (simp add: event_def fmtKey_temp_1000)
  have a: "fst (fst (Add ?e3 (s_buf (sink_with [?e1, ?e2])))) = ?e1"
    by (simp add: sink_with_def adds_two Add_def Let_def)
  have l: "last (All (s_buf (sink_with [?e1, ?e2]))) = ?e1"
    by (simp add: sink_with_def adds_two All_def All_idx_def eval_nat_numeral)
  show ?thesis
    using overflow_written_to_journal [where s = "sink_with [?e1, ?e2]" and j = "[]"
        and MarshalMsg = marshal_value and jWrite = mock_Write and ev = ?e3 and val = "[1]"
        and z = zero_Event and c = 2 and xs = "[?e1, ?e2]" and ?v1.0 = "[1]"
        and sensor = "''temp''" and ts = 1000]
      overflow_written_to_journal [where s = "sink_with [?e1]" and j = "[]"
        and MarshalMsg = marshal_value and jWrite = mock_Write and ev = ?e2 and val = "[1]"
        and z = zero_Event and c = 2 and xs = "[?e1]" and ?v1.0 = "[1]"
        and sensor = "''temp''" and ts = 1000]
      m k a l
    by (simp add: sink_with_def adds_two mock_Write_def)
qed

section \<open>Deduplication\<close>

lemma Middleware_step:
  "Middleware next (d, s) ev =
     (if ev_IdempotencyID ev = [] then (fst (next s ev), (d, snd (next s ev)))
      else if ev_IdempotencyID ev \<in> d_m d then (Err ErrDuplicate, (d, s))
      else (fst (next s ev),
            (d\<lparr>d_m := insert (ev_IdempotencyID ev) (d_m d), d_count := d_count d + 1\<rparr>, snd (next s ev))))"
  by (simp add: Middleware_def Let_def split: prod.splits)

lemma duplicate_at_0:
  "duplicate_at M (ev # evs) 0 \<longleftrightarrow> ev_IdempotencyID ev \<noteq> [] \<and> ev_IdempotencyID ev \<in> M"
  by (simp add: duplicate_at_def)

lemma duplicate_at_Suc:
  "duplicate_at M (ev # evs) (Suc i) \<longleftrightarrow>
     duplicate_at (if ev_IdempotencyID ev = [] then M else insert (ev_IdempotencyID ev) M) evs i"
  by (auto simp: duplicate_at_def)

lemma filter_upt_Suc:
  "filter P [0..<Suc n] = (if P 0 then [0] else []) @ map Suc (filter (\<lambda>i. P (Suc i)) [0..<n])"
proof -
  have "[0..<Suc n] = 0 # map Suc [0..<n]"
    by (simp add: upt_conv_Cons map_Suc_upt del: upt_Suc)
  then show ?thesis by (simp add: filter_map comp_def del: upt_Suc)
qed

lemma feed_Middleware:
  "fst (feed (Middleware received) (d, acc) evs)
     = map (\<lambda>i. if duplicate_at (d_m d) evs i then Err ErrDuplicate else Ok ()) [0..<length evs] \<and>
   snd (snd (feed (Middleware received) (d, acc) evs))
     = acc @ map (nth evs) (filter (\<lambda>i. \<not> duplicate_at (d_m d) evs i) [0..<length evs])"
proof (induction evs arbitrary: d acc)
  case Nil
  show ?case by simp
next
  case (Cons ev evs)
  let ?k = "ev_IdempotencyID ev"
  let ?M' = "if ?k = [] then d_m d else insert ?k (d_m d)"
  obtain r d' acc' where step: "Middleware received (d, acc) ev = (r, (d', acc'))"
    by (metis prod.collapse)
  have r: "r = (if duplicate_at (d_m d) (ev # evs) 0 then Err ErrDuplicate else Ok ())"
    using step by (auto simp: Middleware_step received_def duplicate_at_0 split: if_splits)
  have acc': "acc' = acc @ (if duplicate_at (d_m d) (ev # evs) 0 then [] else [ev])"
    using step by (auto simp: Middleware_step received_def duplicate_at_0 split: if_splits)
  have d': "duplicate_at (d_m d') evs i = duplicate_at ?M' evs i" for i
    using step by (auto simp: Middleware_step received_def duplicate_at_def split: if_splits)
  have shift: "duplicate_at (d_m d) (ev # evs) (Suc i) = duplicate_at (d_m d') evs i" for i
    by (simp only: duplicate_at_Suc d')
  note IH = Cons.IH [of d' acc']
  have f: "feed (Middleware received) (d, acc) (ev # evs)
           = (r # fst (feed (Middleware received) (d', acc') evs),
              snd (feed (Middleware received) (d', acc') evs))"
    by (simp add: step split: prod.splits)
  have res: "fst (feed (Middleware received) (d, acc) (ev # evs))
     = map (\<lambda>i. if duplicate_at (d_m d) (ev # evs) i then Err ErrDuplicate else Ok ()) [0..<length (ev # evs)]"
    unfolding f using IH r by (simp add: map_upt_Suc shift del: upt_Suc)
  have rec: "snd (snd (feed (Middleware received) (d, acc) (ev # evs)))
     = acc @ map (nth (ev # evs)) (filter (\<lambda>i. \<not> duplicate_at (d_m d) (ev # evs) i) [0..<length (ev # evs)])"
    unfolding f using IH acc' by (simp add: filter_upt_Suc shift comp_def del: upt_Suc)
  show ?case using res rec by blast
qed

lemma feed_abaac:
  "feed (Middleware received) (NewDeduplicator i, []) (map keyed [''a'', ''b'', ''a'', ''a'', ''c''])
   = ([Ok (), Ok (), Err ErrDuplicate, Err ErrDuplicate, Ok ()],
      (\<lparr>d_m = {''c'', ''b'', ''a''}, d_count = 3, d_interval = i\<rparr>,
       map keyed [''a'', ''b'', ''c'']))"
  by (simp add: Middleware_step received_def keyed_def NewDeduplicator_def)

text \<open>
  Claim C7. Between sweeps, the handler of the deduplicator forwards every event with an
  empty idempotency key to the next handler and leaves the map alone; it forwards an
  event with a key that the map does not hold and stores the key; it fails with
  \<open>ErrDuplicate\<close>, without calling the next handler, on an event whose key the map
  holds. Over a run from an empty map the events that reach the terminal handler are
  those with an empty key or with the first occurrence of their key, in their order, and
  every other event fails with \<open>ErrDuplicate\<close>. For the keys a, b, a, a, c the events
  that reach the terminal handler are those with the keys a, b, c.
\<close>

theorem dedup_first_wins:
  "(ev_IdempotencyID ev = [] \<longrightarrow>
      Middleware next (d, s) ev = (fst (next s ev), (d, snd (next s ev)))) \<and>
   (ev_IdempotencyID ev \<noteq> [] \<and> ev_IdempotencyID ev \<notin> d_m d \<longrightarrow>
      Middleware next (d, s) ev
      = (fst (next s ev),
         (d\<lparr>d_m := insert (ev_IdempotencyID ev) (d_m d), d_count := d_count d + 1\<rparr>, snd (next s ev)))) \<and>
   (ev_IdempotencyID ev \<noteq> [] \<and> ev_IdempotencyID ev \<in> d_m d \<longrightarrow>
      Middleware next (d, s) ev = (Err ErrDuplicate, (d, s))) \<and>
   fst (feed (Middleware received) (NewDeduplicator i, []) evs)
     = map (\<lambda>n. if duplicate_at {} evs n then Err ErrDuplicate else Ok ()) [0..<length evs] \<and>
   snd (snd (feed (Middleware received) (NewDeduplicator i, []) evs))
     = map (nth evs) (filter (\<lambda>n. \<not> duplicate_at {} evs n) [0..<length evs]) \<and>
   snd (snd (feed (Middleware received) (NewDeduplicator i, [])
               (map keyed [''a'', ''b'', ''a'', ''a'', ''c''])))
     = map keyed [''a'', ''b'', ''c'']"
proof -
  have m: "d_m (NewDeduplicator i) = {}" by (simp add: NewDeduplicator_def)
  have steps: "(ev_IdempotencyID ev = [] \<longrightarrow>
      Middleware next (d, s) ev = (fst (next s ev), (d, snd (next s ev)))) \<and>
   (ev_IdempotencyID ev \<noteq> [] \<and> ev_IdempotencyID ev \<notin> d_m d \<longrightarrow>
      Middleware next (d, s) ev
      = (fst (next s ev),
         (d\<lparr>d_m := insert (ev_IdempotencyID ev) (d_m d), d_count := d_count d + 1\<rparr>, snd (next s ev)))) \<and>
   (ev_IdempotencyID ev \<noteq> [] \<and> ev_IdempotencyID ev \<in> d_m d \<longrightarrow>
      Middleware next (d, s) ev = (Err ErrDuplicate, (d, s)))"
    by (simp add: Middleware_step)
  have run: "fst (feed (Middleware received) (NewDeduplicator i, []) evs)
     = map (\<lambda>n. if duplicate_at {} evs n then Err ErrDuplicate else Ok ()) [0..<length evs] \<and>
   snd (snd (feed (Middleware received) (NewDeduplicator i, []) evs))
     = map (nth evs) (filter (\<lambda>n. \<not> duplicate_at {} evs n) [0..<length evs])"
    using feed_Middleware [of "NewDeduplicator i" "[]" evs] by (simp add: m)
  have ex: "snd (snd (feed (Middleware received) (NewDeduplicator i, [])
               (map keyed [''a'', ''b'', ''a'', ''a'', ''c''])))
     = map keyed [''a'', ''b'', ''c'']"
    by (simp only: feed_abaac snd_conv)
  from steps run ex show ?thesis by blast
qed

theorem dedup_first_wins_witness:
  "ev_IdempotencyID (event ''temp'' 1 1000) = [] \<and>
   Middleware received (NewDeduplicator 600, []) (event ''temp'' 1 1000)
     = (Ok (), (NewDeduplicator 600, [event ''temp'' 1 1000])) \<and>
   ev_IdempotencyID (keyed ''a'') \<noteq> [] \<and> ev_IdempotencyID (keyed ''a'') \<notin> d_m (NewDeduplicator 600) \<and>
   Middleware received (NewDeduplicator 600, []) (keyed ''a'')
     = (Ok (), (\<lparr>d_m = {''a''}, d_count = 1, d_interval = 600\<rparr>, [keyed ''a''])) \<and>
   ev_IdempotencyID (keyed ''a'') \<in> d_m \<lparr>d_m = {''a''}, d_count = 1, d_interval = 600\<rparr> \<and>
   Middleware received (\<lparr>d_m = {''a''}, d_count = 1, d_interval = 600\<rparr>, [keyed ''a'']) (keyed ''a'')
     = (Err ErrDuplicate, (\<lparr>d_m = {''a''}, d_count = 1, d_interval = 600\<rparr>, [keyed ''a''])) \<and>
   fst (feed (Middleware received) (NewDeduplicator 600, []) (map keyed [''a'', ''a'']))
     = [Ok (), Err ErrDuplicate]"
proof -
  have d: "duplicate_at {} (map keyed [''a'', ''a'']) 0 = False"
          "duplicate_at {} (map keyed [''a'', ''a'']) (Suc 0) = True"
    by (simp_all add: duplicate_at_def keyed_def)
  have u: "[0..<2] = [0, Suc 0]" by (simp add: upt_conv_Cons)
  show ?thesis
    using dedup_first_wins [where ev = "event ''temp'' 1 1000" and d = "NewDeduplicator 600"
        and s = "[]" and ?next = received and i = 600 and evs = "map keyed [''a'', ''a'']"]
      dedup_first_wins [where ev = "keyed ''a''" and d = "NewDeduplicator 600"
        and s = "[]" and ?next = received and i = 600 and evs = "map keyed [''a'', ''a'']"]
      dedup_first_wins [where ev = "keyed ''a''" and d = "\<lparr>d_m = {''a''}, d_count = 1, d_interval = 600\<rparr>"
        and s = "[keyed ''a'']" and ?next = received and i = 600 and evs = "map keyed [''a'', ''a'']"]
    by (simp add: event_def keyed_def NewDeduplicator_def received_def d u)
qed

end
